theory Spec2Isabelle
  imports Complex_Main "HOL-Library.Word"
begin

section \<open>Double-precision arithmetic\<close>

text \<open>
  \<^verbatim>\<open>genfreqs.c\<close> computes with C \<^verbatim>\<open>double\<close>. Every double it can produce is finite
  (the target frequencies lie below 4000 and the output frequencies between 14 and
  400000000, see \<open>note_freq_range\<close> and \<open>cand_out_freq_bounds\<close> below), and a finite
  double is read here as the real number it denotes. An arithmetic
  operation of the source is the exact operation followed by the rounding of the
  floating-point unit, \<open>rnd\<close>; \<open>pow\<close> is the function of that name of the C maths
  library, which the C standard leaves open. Both are parameters of the model.
  Comparisons (\<^verbatim>\<open><\<close>, \<^verbatim>\<open>==\<close>) of finite doubles are those of the reals, \<^verbatim>\<open>fabs\<close> is
  exact, and so is the conversion of a 32-bit integer to a double.
\<close>

type_synonym double = real

record fpu =
  rnd :: "real \<Rightarrow> double"
  pow :: "double \<Rightarrow> double \<Rightarrow> double"

definition fmul :: "fpu \<Rightarrow> double \<Rightarrow> double \<Rightarrow> double" where
  "fmul u x y = rnd u (x * y)"

definition fdiv :: "fpu \<Rightarrow> double \<Rightarrow> double \<Rightarrow> double" where
  "fdiv u x y = rnd u (x / y)"

definition fsub :: "fpu \<Rightarrow> double \<Rightarrow> double \<Rightarrow> double" where
  "fsub u x y = rnd u (x - y)"

definition fabs :: "double \<Rightarrow> double" where
  "fabs x = \<bar>x\<bar>"

text \<open>
  The arithmetic of the machine: IEEE 754 binary64 with rounding to nearest, ties to
  even. \<open>rint\<close> rounds a real number to the nearest integer, a tie to the even one.
  A double has 53 significant bits, and the least exponent of the last bit is
  \<open>- 1074\<close> (the subnormal numbers), so the result of an operation is rounded to a
  multiple of \<open>2 ^ ulp_exp x\<close>. Overflow is not modelled: no value of the program
  comes near \<open>2 ^ 1024\<close>. As the power function of the maths library the unit
  \<open>binary64\<close> takes a correctly rounded one.
\<close>

definition rint :: "real \<Rightarrow> int" where
  "rint y =
     (let f = \<lfloor>y\<rfloor>; d = y - of_int f
      in if d < 1 / 2 then f else if 1 / 2 < d then f + 1 else if even f then f else f + 1)"

definition ulp_exp :: "real \<Rightarrow> int" where
  "ulp_exp x = max (\<lfloor>log 2 \<bar>x\<bar>\<rfloor> - 52) (- 1074)"

definition round_to_nearest :: "real \<Rightarrow> double" where
  "round_to_nearest x =
     (if x = 0 then 0
      else of_int (rint (x / 2 powr of_int (ulp_exp x))) * 2 powr of_int (ulp_exp x))"

definition binary64 :: fpu where
  "binary64 = \<lparr>rnd = round_to_nearest, pow = (\<lambda>x y. round_to_nearest (x powr y))\<rparr>"

text \<open>The exact unit: no rounding, and the mathematical power function.\<close>

definition exact :: fpu where
  "exact = \<lparr>rnd = (\<lambda>x. x), pow = (powr)\<rparr>"

text \<open>
  What the proofs below use of the arithmetic. A finite double is \<open>m * 2 ^ e\<close> with a
  significand \<open>m\<close> of at most 53 bits. A unit is \<open>ieee_double\<close> when
  \<^item> an operation whose exact result is a double returns it;
  \<^item> the relative error of an operation with a result in the normal range is at most
    \<open>2 ^ - 53\<close>, that of rounding to nearest;
  \<^item> \<^verbatim>\<open>pow(2, 0)\<close> is 1, as the C standard requires, and \<^verbatim>\<open>pow(2, y)\<close> has a
    relative error of at most \<open>2 ^ - 50\<close> (four units in the last place).

  Both \<open>binary64\<close> and \<open>exact\<close> are such units (\<open>ieee_double_binary64\<close> and
  \<open>ieee_double_exact\<close> below), and so is \<open>binary64\<close> with any other power function of
  that accuracy.
\<close>

definition representable :: "real \<Rightarrow> bool" where
  "representable x \<longleftrightarrow>
     (\<exists>m e. \<bar>m\<bar> < 2 ^ 53 \<and> - 1074 \<le> e \<and> e \<le> 971 \<and> x = real_of_int m * 2 powr real_of_int e)"

definition ieee_double :: "fpu \<Rightarrow> bool" where
  "ieee_double u \<longleftrightarrow>
     (\<forall>x. representable x \<longrightarrow> rnd u x = x) \<and>
     (\<forall>x. 2 powr - 1022 \<le> \<bar>x\<bar> \<and> \<bar>x\<bar> \<le> 2 powr 1023 \<longrightarrow> \<bar>rnd u x - x\<bar> \<le> \<bar>x\<bar> / 2 ^ 53) \<and>
     pow u 2 0 = 1 \<and>
     (\<forall>y. \<bar>y\<bar> \<le> 1000 \<longrightarrow> \<bar>pow u 2 y - 2 powr y\<bar> \<le> 2 powr y / 2 ^ 50)"

section \<open>The notes table\<close>

definition SYS_FREQ_HZ :: int where
  "SYS_FREQ_HZ = 280000000"

definition BASE_NOTE :: int where
  "BASE_NOTE = 69 - 24"

definition OCTAVES :: nat where
  "OCTAVES = 5"

definition NOTE_CNT :: nat where
  "NOTE_CNT = OCTAVES * 12"

text \<open>
  \<^verbatim>\<open>struct _note\<close>. The fields \<^verbatim>\<open>top\<close> and \<^verbatim>\<open>div\<close> are \<^verbatim>\<open>uint32_t\<close>; their names
  are taken in HOL, so they carry the suffix \<open>_reg\<close>.
\<close>

record note_t =
  freq :: double
  top_reg :: "32 word"
  div_reg :: "32 word"
  divf :: double
  out_freq :: double
  err :: double

text \<open>The global array \<^verbatim>\<open>notes\<close> has static storage: all fields start at zero.\<close>

definition notes0 :: "note_t list" where
  "notes0 = replicate NOTE_CNT
     \<lparr>freq = 0, top_reg = 0, div_reg = 0, divf = 0, out_freq = 0, err = 0\<rparr>"

text \<open>Lines 51 to 55: the target frequency and the two sentinels of every note.\<close>

definition init_note :: "fpu \<Rightarrow> nat \<Rightarrow> note_t \<Rightarrow> note_t" where
  "init_note u i n =
     n\<lparr>freq := fmul u 440 (pow u 2 (fdiv u (of_int (int i + BASE_NOTE - 69)) 12)),
       err := 9999999999,
       out_freq := - 1\<rparr>"

function init_loop :: "fpu \<Rightarrow> nat \<Rightarrow> note_t list \<Rightarrow> note_t list" where
  "init_loop u i ns =
     (if i < NOTE_CNT then init_loop u (i + 1) (ns[i := init_note u i (ns ! i)]) else ns)"
  by pat_completeness auto
termination
  by (relation "measure (\<lambda>(u, i, ns). NOTE_CNT - i)") auto

declare init_loop.simps [simp del]

section \<open>The search\<close>

text \<open>
  Lines 66 to 73, the body of the loop over the notes: the candidate with divider
  \<open>dv\<close> (as a double, \<open>dvf\<close>), wrap \<open>tp\<close> and output frequency \<open>outf\<close> is tried on the
  note \<open>n\<close>.
\<close>

definition try_note :: "fpu \<Rightarrow> 32 word \<Rightarrow> double \<Rightarrow> 32 word \<Rightarrow> double \<Rightarrow> note_t \<Rightarrow> note_t" where
  "try_note u dv dvf tp outf n =
     (let e = fabs (fsub u (freq n) outf)
      in if e < err n
         then n\<lparr>out_freq := outf, err := e, top_reg := tp, div_reg := dv, divf := dvf\<rparr>
         else n)"

text \<open>Lines 64 to 74: the loop over the notes, for one candidate.\<close>

function notes_loop ::
  "fpu \<Rightarrow> 32 word \<Rightarrow> double \<Rightarrow> 32 word \<Rightarrow> double \<Rightarrow> nat \<Rightarrow> note_t list \<Rightarrow> note_t list" where
  "notes_loop u dv dvf tp outf i ns =
     (if i < NOTE_CNT
      then notes_loop u dv dvf tp outf (i + 1) (ns[i := try_note u dv dvf tp outf (ns ! i)])
      else ns)"
  by pat_completeness auto
termination
  by (relation "measure (\<lambda>(u, dv, dvf, tp, outf, i, ns). NOTE_CNT - i)") auto

declare notes_loop.simps [simp del]

text \<open>Lines 62 to 75: the loop over the wrap values, a \<^verbatim>\<open>uint32_t\<close> counter.\<close>

function top_loop ::
  "fpu \<Rightarrow> 32 word \<Rightarrow> double \<Rightarrow> double \<Rightarrow> 32 word \<Rightarrow> note_t list \<Rightarrow> note_t list" where
  "top_loop u dv dvf freq_div tp ns =
     (if tp < 65536
      then top_loop u dv dvf freq_div (tp + 1)
             (notes_loop u dv dvf tp (fdiv u freq_div (real (unat (tp + 1)))) 0 ns)
      else ns)"
  by pat_completeness auto
termination
proof (relation "measure (\<lambda>(u, dv, dvf, freq_div, tp, ns). 65536 - unat tp)")
  show "wf (measure (\<lambda>(u, dv, dvf, freq_div, tp, ns). 65536 - unat tp))"
    by simp
next
  fix u :: fpu and dv :: "32 word" and dvf freq_div :: double
    and tp :: "32 word" and ns :: "note_t list"
  assume "tp < 65536"
  then have lt: "unat tp < 65536"
    by (simp add: word_less_nat_alt)
  then have "unat tp + unat (1 :: 32 word) < 2 ^ LENGTH(32)"
    by simp
  then have "unat (tp + 1) = unat tp + unat (1 :: 32 word)"
    by (simp only: unat_add_lem)
  with lt show "((u, dv, dvf, freq_div, tp + 1,
      notes_loop u dv dvf tp (fdiv u freq_div (real (unat (tp + 1)))) 0 ns),
      (u, dv, dvf, freq_div, tp, ns))
    \<in> measure (\<lambda>(u, dv, dvf, freq_div, tp, ns). 65536 - unat tp)"
    by simp
qed

declare top_loop.simps [simp del]

text \<open>
  Lines 58 to 76: the loop over the divider values, from \<^verbatim>\<open>1<<4\<close> up to but not
  including \<^verbatim>\<open>1<<12\<close>. The progress line of line 60 is not part of the result.
  The \<^verbatim>\<open>omp parallel for\<close> pragma is not modelled: this is the loop as the C
  language defines it, one divider after the other.
\<close>

function div_loop :: "fpu \<Rightarrow> 32 word \<Rightarrow> note_t list \<Rightarrow> note_t list" where
  "div_loop u dv ns =
     (if dv < push_bit 12 1
      then let dvf = fmul u (real (unat dv)) 0.0625;
               freq_div = fdiv u (of_int SYS_FREQ_HZ) dvf
           in div_loop u (dv + 1) (top_loop u dv dvf freq_div 0 ns)
      else ns)"
  by pat_completeness auto
termination
proof (relation "measure (\<lambda>(u, dv, ns). 4096 - unat dv)")
  show "wf (measure (\<lambda>(u, dv, ns). 4096 - unat dv))"
    by simp
next
  fix u :: fpu and dv :: "32 word" and ns :: "note_t list" and dvf freq_div :: double
  assume "dv < push_bit 12 1"
  then have lt: "unat dv < 4096"
    by (simp add: word_less_nat_alt)
  then have "unat dv + unat (1 :: 32 word) < 2 ^ LENGTH(32)"
    by simp
  then have "unat (dv + 1) = unat dv + unat (1 :: 32 word)"
    by (simp only: unat_add_lem)
  with lt show "((u, dv + 1, top_loop u dv dvf freq_div 0 ns), (u, dv, ns))
    \<in> measure (\<lambda>(u, dv, ns). 4096 - unat dv)"
    by simp
qed

declare div_loop.simps [simp del]

text \<open>Lines 50 to 76 of \<^verbatim>\<open>main\<close>: the table after the search.\<close>

definition search :: "fpu \<Rightarrow> note_t list" where
  "search u = div_loop u (push_bit 4 1) (init_loop u 0 notes0)"

section \<open>The two output blocks\<close>

text \<open>
  \<^verbatim>\<open>printf\<close> with \<^verbatim>\<open>%u\<close> and \<^verbatim>\<open>%x\<close>: the decimal and the lower-case hexadecimal
  digits of an unsigned value, without padding.
\<close>

definition digit_char :: "nat \<Rightarrow> char" where
  "digit_char d = ''0123456789abcdef'' ! d"

fun show_dec :: "nat \<Rightarrow> string" where
  "show_dec n = (if n < 10 then [digit_char n] else show_dec (n div 10) @ [digit_char (n mod 10)])"

fun show_hex :: "nat \<Rightarrow> string" where
  "show_hex n = (if n < 16 then [digit_char n] else show_hex (n div 16) @ [digit_char (n mod 16)])"

declare show_dec.simps [simp del]

declare show_hex.simps [simp del]

text \<open>
  What one pass of the loop of lines 80 to 87 prints: the text of line 82, or the
  line of line 85, which is kept as the list of its \<^verbatim>\<open>printf\<close> arguments (the
  decimal formatting of a double is not modelled).
\<close>

datatype out_line =
  Text string
| Config nat double double double "32 word" double "32 word"

text \<open>Lines 81 to 86, the body of the loop of the first block, for the note \<open>n\<close>.\<close>

definition report_line :: "nat \<Rightarrow> note_t \<Rightarrow> out_line" where
  "report_line i n =
     (if out_freq n = - 1
      then Text (show_dec i @ '': no config'' @ [CHR 0x0A])
      else Config i (freq n) (out_freq n) (err n) (div_reg n) (divf n) (top_reg n))"

text \<open>Lines 79 to 87: the first block, one line for each note.\<close>

function report_loop :: "nat \<Rightarrow> note_t list \<Rightarrow> out_line list" where
  "report_loop i ns =
     (if i < NOTE_CNT then report_line i (ns ! i) # report_loop (i + 1) ns else [])"
  by pat_completeness auto
termination
  by (relation "measure (\<lambda>(i, ns). NOTE_CNT - i)") auto

declare report_loop.simps [simp del]

text \<open>Lines 92 to 98: the entries of the table.\<close>

function table_loop :: "nat \<Rightarrow> note_t list \<Rightarrow> string" where
  "table_loop i ns =
     (if i < NOTE_CNT
      then ''(0x'' @ show_hex (unat (div_reg (ns ! i))) @ '',0x''
             @ show_hex (unat (top_reg (ns ! i))) @ '')''
           @ (if i < NOTE_CNT - 1 then '','' else [])
           @ (if i mod 7 = 6 \<and> i < NOTE_CNT - 1 then CHR 0x0A # replicate 12 CHR '' '' else [])
           @ table_loop (i + 1) ns
      else [])"
  by pat_completeness auto
termination
  by (relation "measure (\<lambda>(i, ns). NOTE_CNT - i)") auto

declare table_loop.simps [simp del]

text \<open>Lines 89 to 99: the second block.\<close>

definition table :: "note_t list \<Rightarrow> string" where
  "table ns =
     ''# This table is generated using genfreqs.c'' @ [CHR 0x0A]
     @ CHR 0x0A # ''pwm_cfgs = [''
     @ table_loop 0 ns
     @ '']'' @ [CHR 0x0A]"

text \<open>
  Lines 79 to 101 of \<^verbatim>\<open>main\<close>, from the table \<open>ns\<close> that the search has left:
  the two blocks and the exit status 0.
\<close>

definition output_blocks :: "note_t list \<Rightarrow> out_line list \<times> string \<times> int" where
  "output_blocks ns = (report_loop 0 ns, table ns, 0)"

text \<open>
  \<^verbatim>\<open>main\<close>: the search, then the output. The progress line of line 60 and the
  line of line 77 that erases it are left out.
\<close>

definition main :: "fpu \<Rightarrow> out_line list \<times> string \<times> int" where
  "main u = output_blocks (search u)"

section \<open>Candidates and the order of the search\<close>

text \<open>The double that line 52 computes for the note of index \<open>i\<close>.\<close>

definition note_freq :: "fpu \<Rightarrow> nat \<Rightarrow> double" where
  "note_freq u i = fmul u 440 (pow u 2 (fdiv u (of_int (int i + BASE_NOTE - 69)) 12))"

text \<open>
  The values that lines 59, 61 and 63 compute for the divider \<open>dv\<close> and the wrap
  \<open>tp\<close>, and the error of line 66 against the target frequency \<open>f\<close>.
\<close>

definition cand_divf :: "fpu \<Rightarrow> 32 word \<Rightarrow> double" where
  "cand_divf u dv = fmul u (real (unat dv)) 0.0625"

definition cand_out_freq :: "fpu \<Rightarrow> 32 word \<Rightarrow> 32 word \<Rightarrow> double" where
  "cand_out_freq u dv tp =
     fdiv u (fdiv u (of_int SYS_FREQ_HZ) (cand_divf u dv)) (real (unat (tp + 1)))"

definition cand_err :: "fpu \<Rightarrow> double \<Rightarrow> 32 word \<Rightarrow> 32 word \<Rightarrow> double" where
  "cand_err u f dv tp = fabs (fsub u f (cand_out_freq u dv tp))"

text \<open>One candidate, a pair of a divider and a wrap, tried on one note.\<close>

definition try_cand :: "fpu \<Rightarrow> 32 word \<times> 32 word \<Rightarrow> note_t \<Rightarrow> note_t" where
  "try_cand u c n =
     try_note u (fst c) (cand_divf u (fst c)) (snd c) (cand_out_freq u (fst c) (snd c)) n"

text \<open>The note \<open>n\<close> after lines 68 to 72 have stored the candidate \<open>c\<close> in it.\<close>

definition take_cand :: "fpu \<Rightarrow> 32 word \<times> 32 word \<Rightarrow> note_t \<Rightarrow> note_t" where
  "take_cand u c n =
     n\<lparr>out_freq := cand_out_freq u (fst c) (snd c),
       err := cand_err u (freq n) (fst c) (snd c),
       top_reg := snd c,
       div_reg := fst c,
       divf := cand_divf u (fst c)\<rparr>"

text \<open>
  The search space in the order of the two loops of the source: the dividers from 16
  to 4095, and for each of them the wraps from 0 to 65535.
\<close>

definition search_space :: "(32 word \<times> 32 word) list" where
  "search_space = List.product (map of_nat [16..<4096]) (map of_nat [0..<65536])"

text \<open>The candidate \<open>c\<close> comes before \<open>c'\<close> in that order.\<close>

definition earlier :: "32 word \<times> 32 word \<Rightarrow> 32 word \<times> 32 word \<Rightarrow> bool" where
  "earlier c c' \<longleftrightarrow> fst c < fst c' \<or> (fst c = fst c' \<and> snd c < snd c')"

text \<open>
  The search with the candidates taken in any given order \<open>cs\<close>, each tried on every
  note: what a run that splits or reorders the loops computes.
\<close>

definition search_in_order :: "fpu \<Rightarrow> (32 word \<times> 32 word) list \<Rightarrow> note_t list" where
  "search_in_order u cs = map (fold (try_cand u) cs) (init_loop u 0 notes0)"

section \<open>The specification's formulas\<close>

text \<open>
  The target frequency of the note of index \<open>i\<close> as the specification states it, in
  the real numbers: equal-tempered tuning around 440 Hz.
\<close>

definition target_frequency :: "nat \<Rightarrow> real" where
  "target_frequency i = 440 * 2 powr ((real i + 45 - 69) / 12)"

text \<open>
  The output frequency of a divider raw value and a wrap value as the specification
  computes it, on natural numbers: \<open>divisor = raw * 0.0625\<close>,
  \<open>freq_after_divider = clock_frequency / divisor\<close> and
  \<open>output_frequency = freq_after_divider / (wrap + 1)\<close>, each in double arithmetic.
\<close>

definition output_frequency :: "fpu \<Rightarrow> nat \<Rightarrow> nat \<Rightarrow> double" where
  "output_frequency u raw wrap =
     (let divisor = fmul u (real raw) 0.0625;
          freq_after_divider = fdiv u 280000000 divisor
      in fdiv u freq_after_divider (real (wrap + 1)))"

text \<open>
  The entry of the note of index \<open>i\<close> in the table as the specification describes it:
  the pair in hexadecimal, a comma unless it is the last of the 60 entries, and a line
  break after every seventh entry except the last.
\<close>

definition table_entry :: "note_t list \<Rightarrow> nat \<Rightarrow> string" where
  "table_entry ns i =
     ''(0x'' @ show_hex (unat (div_reg (ns ! i))) @ '',0x''
       @ show_hex (unat (top_reg (ns ! i))) @ '')''
     @ (if i = 59 then [] else '','')
     @ (if (i + 1) mod 7 = 0 \<and> i \<noteq> 59 then CHR 0x0A # replicate 12 CHR '' '' else [])"

section \<open>The loops as maps and folds\<close>

text \<open>
  The four loops of the search in closed form. The loop over the notes is a map over
  the table, the loops over the wraps and the dividers are folds over their ranges,
  and the whole search is, for every note, the fold of \<open>try_cand\<close> over the search
  space in the order of the loops (\<open>search_eq_in_order\<close>).
\<close>

lemma notes_loop_take_drop:
  "i \<le> NOTE_CNT \<Longrightarrow> length ns = NOTE_CNT \<Longrightarrow>
   notes_loop u dv dvf tp outf i ns = take i ns @ map (try_note u dv dvf tp outf) (drop i ns)"
proof (induction u dv dvf tp outf i ns rule: notes_loop.induct)
  case (1 u dv dvf tp outf i ns)
  show ?case
  proof (cases "i < NOTE_CNT")
    case True
    let ?f = "try_note u dv dvf tp outf"
    let ?ns = "ns[i := ?f (ns ! i)]"
    from True "1.prems" have i: "i < length ns" by simp
    have "notes_loop u dv dvf tp outf i ns = notes_loop u dv dvf tp outf (i + 1) ?ns"
      using True by (subst notes_loop.simps) simp
    also have "\<dots> = take (i + 1) ?ns @ map ?f (drop (i + 1) ?ns)"
      using True "1.prems" by (intro "1.IH") simp_all
    also have "take (i + 1) ?ns = take i ns @ [?f (ns ! i)]"
      using i by (simp add: take_Suc_conv_app_nth)
    also have "drop (i + 1) ?ns = drop (i + 1) ns"
      by simp
    finally show ?thesis
      using i by (simp add: Cons_nth_drop_Suc [symmetric])
  next
    case False
    with "1.prems" have "i = length ns" by simp
    then show ?thesis
      using False by (subst notes_loop.simps) simp
  qed
qed

lemma notes_loop_map:
  "length ns = NOTE_CNT \<Longrightarrow> notes_loop u dv dvf tp outf 0 ns = map (try_note u dv dvf tp outf) ns"
  by (simp add: notes_loop_take_drop)

lemma init_loop_take_drop:
  "i \<le> NOTE_CNT \<Longrightarrow> length ns = NOTE_CNT \<Longrightarrow>
   init_loop u i ns = take i ns @ map (\<lambda>k. init_note u k (ns ! k)) [i..<NOTE_CNT]"
proof (induction u i ns rule: init_loop.induct)
  case (1 u i ns)
  show ?case
  proof (cases "i < NOTE_CNT")
    case True
    let ?ns = "ns[i := init_note u i (ns ! i)]"
    from True "1.prems" have i: "i < length ns" by simp
    have "init_loop u i ns = init_loop u (i + 1) ?ns"
      using True by (subst init_loop.simps) simp
    also have "\<dots> = take (i + 1) ?ns @ map (\<lambda>k. init_note u k (?ns ! k)) [i + 1..<NOTE_CNT]"
      using True "1.prems" by (intro "1.IH") simp_all
    also have "take (i + 1) ?ns = take i ns @ [init_note u i (ns ! i)]"
      using i by (simp add: take_Suc_conv_app_nth)
    also have "map (\<lambda>k. init_note u k (?ns ! k)) [i + 1..<NOTE_CNT]
        = map (\<lambda>k. init_note u k (ns ! k)) [i + 1..<NOTE_CNT]"
      by simp
    finally show ?thesis
      using True by (simp add: upt_conv_Cons)
  next
    case False
    with "1.prems" have "i = NOTE_CNT" by simp
    then show ?thesis
      using "1.prems" by (subst init_loop.simps) simp
  qed
qed

lemma fold_map_swap: "fold (\<lambda>t. map (g t)) ts ns = map (fold g ts) ns"
  by (induction ts arbitrary: ns) simp_all

lemma fold_product: "fold f (List.product xs ys) = fold (\<lambda>x. fold (\<lambda>y. f (x, y)) ys) xs"
proof (induction xs)
  case Nil
  show ?case by simp
next
  case (Cons x xs)
  have "fold f (map (Pair x) ys) = fold (\<lambda>y. f (x, y)) ys"
    by (simp add: fold_map comp_def)
  with Cons show ?case by simp
qed

lemma unat_word_succ:
  fixes w :: "32 word"
  assumes "unat w < 65536"
  shows "unat (w + 1) = unat w + 1"
proof -
  from assms have "unat w + unat (1 :: 32 word) < 2 ^ LENGTH(32)" by simp
  then have "unat (w + 1) = unat w + unat (1 :: 32 word)" by (simp only: unat_add_lem)
  then show ?thesis by simp
qed

lemma top_loop_fold:
  "length ns = NOTE_CNT \<Longrightarrow>
   top_loop u dv dvf fd tp ns =
     fold (\<lambda>t. map (try_note u dv dvf t (fdiv u fd (real (unat (t + 1))))))
       (map of_nat [unat tp..<65536]) ns"
proof (induction u dv dvf fd tp ns rule: top_loop.induct)
  case (1 u dv dvf fd tp ns)
  let ?F = "\<lambda>t. map (try_note u dv dvf t (fdiv u fd (real (unat (t + 1)))))"
  show ?case
  proof (cases "tp < 65536")
    case True
    then have lt: "unat tp < 65536" by (simp add: word_less_nat_alt)
    then have suc: "unat (tp + 1) = unat tp + 1" by (rule unat_word_succ)
    let ?ns = "notes_loop u dv dvf tp (fdiv u fd (real (unat (tp + 1)))) 0 ns"
    have ns: "?ns = ?F tp ns"
      using "1.prems" by (rule notes_loop_map)
    have "top_loop u dv dvf fd tp ns = top_loop u dv dvf fd (tp + 1) ?ns"
      using True by (subst top_loop.simps) simp
    also have "\<dots> = fold ?F (map of_nat [unat (tp + 1)..<65536]) ?ns"
      using True "1.prems" by (intro "1.IH") (simp_all only: ns length_map)
    also have "\<dots> = fold ?F (map of_nat [unat (tp + 1)..<65536]) (?F tp ns)"
      by (simp only: ns)
    also have "\<dots> = fold ?F (map of_nat [Suc (unat tp)..<65536]) (?F tp ns)"
      by (simp only: suc Suc_eq_plus1)
    also have "\<dots> = fold ?F (map of_nat (unat tp # [Suc (unat tp)..<65536])) ns"
      by simp
    also have "unat tp # [Suc (unat tp)..<65536] = [unat tp..<65536]"
      using lt by (simp only: upt_conv_Cons)
    finally show ?thesis .
  next
    case False
    then have "\<not> unat tp < 65536" by (simp add: word_less_nat_alt)
    then show ?thesis
      using False by (subst top_loop.simps) simp
  qed
qed

lemma try_cand_pair:
  "try_cand u (dv, tp) = try_note u dv (cand_divf u dv) tp (cand_out_freq u dv tp)"
  by (rule ext) (simp add: try_cand_def)

lemma top_loop_map:
  "length ns = NOTE_CNT \<Longrightarrow>
   top_loop u dv (cand_divf u dv) (fdiv u (of_int SYS_FREQ_HZ) (cand_divf u dv)) 0 ns =
     map (fold (\<lambda>t. try_cand u (dv, t)) (map of_nat [0..<65536])) ns"
  unfolding try_cand_pair cand_out_freq_def
  by (simp only: top_loop_fold fold_map_swap unat_0)

lemma div_loop_fold:
  "length ns = NOTE_CNT \<Longrightarrow>
   div_loop u dv ns =
     fold (\<lambda>d. map (fold (\<lambda>t. try_cand u (d, t)) (map of_nat [0..<65536])))
       (map of_nat [unat dv..<4096]) ns"
proof (induction u dv ns rule: div_loop.induct)
  case (1 u dv ns)
  let ?F = "\<lambda>d. map (fold (\<lambda>t. try_cand u (d, t)) (map of_nat [0..<65536]))"
  show ?case
  proof (cases "dv < push_bit 12 1")
    case True
    then have lt: "unat dv < 4096" by (simp add: word_less_nat_alt)
    then have suc: "unat (dv + 1) = unat dv + 1" by (intro unat_word_succ) simp
    let ?dvf = "fmul u (real (unat dv)) 0.0625"
    let ?ns = "top_loop u dv ?dvf (fdiv u (of_int SYS_FREQ_HZ) ?dvf) 0 ns"
    have ns: "?ns = ?F dv ns"
      using "1.prems" top_loop_map [of ns u dv] by (simp only: cand_divf_def)
    have "div_loop u dv ns = div_loop u (dv + 1) ?ns"
      using True by (subst div_loop.simps) (simp only: Let_def if_True)
    also have "\<dots> = fold ?F (map of_nat [unat (dv + 1)..<4096]) ?ns"
      using True "1.prems" by (intro "1.IH" [OF _ refl refl]) (simp_all only: ns length_map)
    also have "\<dots> = fold ?F (map of_nat [unat (dv + 1)..<4096]) (?F dv ns)"
      by (simp only: ns)
    also have "\<dots> = fold ?F (map of_nat [Suc (unat dv)..<4096]) (?F dv ns)"
      by (simp only: suc Suc_eq_plus1)
    also have "\<dots> = fold ?F (map of_nat (unat dv # [Suc (unat dv)..<4096])) ns"
      by simp
    also have "unat dv # [Suc (unat dv)..<4096] = [unat dv..<4096]"
      using lt by (simp only: upt_conv_Cons)
    finally show ?thesis .
  next
    case False
    then have "\<not> unat dv < 4096" by (simp add: word_less_nat_alt)
    then show ?thesis
      using False by (subst div_loop.simps) simp
  qed
qed

lemma length_init_loop: "length (init_loop u 0 notes0) = NOTE_CNT"
  by (simp add: init_loop_take_drop notes0_def)

lemma search_eq_in_order: "search u = search_in_order u search_space"
proof -
  have "search u =
      fold (\<lambda>d. map (fold (\<lambda>t. try_cand u (d, t)) (map of_nat [0..<65536])))
        (map of_nat [16..<4096]) (init_loop u 0 notes0)"
  proof -
    have "unat (push_bit 4 1 :: 32 word) = 16" by simp
    then show ?thesis
      unfolding search_def by (subst div_loop_fold) (simp_all only: length_init_loop)
  qed
  also have "\<dots> = map (fold (try_cand u) search_space) (init_loop u 0 notes0)"
    by (simp only: fold_map_swap fold_product search_space_def)
  finally show ?thesis
    by (simp add: search_in_order_def)
qed

section \<open>The best candidate of a fold\<close>

text \<open>
  What a fold of \<open>try_cand\<close> over any list of candidates leaves in a note: the note
  itself when no candidate has a smaller error than the note has; otherwise the first
  candidate of the list with the least error.
\<close>

lemma try_cand_if:
  "try_cand u c n = (if cand_err u (freq n) (fst c) (snd c) < err n then take_cand u c n else n)"
  by (simp add: try_cand_def try_note_def take_cand_def cand_err_def Let_def)

lemma freq_take_cand: "freq (take_cand u c n) = freq n"
  by (simp add: take_cand_def)

lemma err_take_cand: "err (take_cand u c n) = cand_err u (freq n) (fst c) (snd c)"
  by (simp add: take_cand_def)

lemma take_cand_take_cand: "take_cand u c (take_cand u c' n) = take_cand u c n"
  by (simp add: take_cand_def)

lemma freq_try_cand: "freq (try_cand u c n) = freq n"
  by (simp add: try_cand_if freq_take_cand)

lemma freq_fold_try_cand: "freq (fold (try_cand u) cs n) = freq n"
  by (induction cs arbitrary: n) (simp_all add: freq_try_cand)

lemma fold_try_cand_cases:
  fixes u cs n
  defines "e \<equiv> \<lambda>c. cand_err u (freq n) (fst c) (snd c)"
  shows "(fold (try_cand u) cs n = n \<and> (\<forall>c\<in>set cs. err n \<le> e c)) \<or>
    (\<exists>pre c post. cs = pre @ c # post \<and> fold (try_cand u) cs n = take_cand u c n \<and>
       e c < err n \<and> (\<forall>c'\<in>set pre. e c < e c') \<and> (\<forall>c'\<in>set post. e c \<le> e c'))"
proof (induction cs rule: rev_induct)
  case Nil
  show ?case by simp
next
  case (snoc c cs)
  let ?r = "fold (try_cand u) cs n"
  have fr: "freq ?r = freq n"
    by (rule freq_fold_try_cand)
  have step: "fold (try_cand u) (cs @ [c]) n = (if e c < err ?r then take_cand u c ?r else ?r)"
    by (simp add: try_cand_if fr e_def)
  from snoc.IH show ?case
  proof (elim disjE conjE exE)
    assume same: "?r = n" and all: "\<forall>c\<in>set cs. err n \<le> e c"
    show ?thesis
    proof (cases "e c < err n")
      case True
      with same step have "fold (try_cand u) (cs @ [c]) n = take_cand u c n" by simp
      moreover from all True have "\<forall>c'\<in>set cs. e c < e c'" by fastforce
      ultimately have "cs @ [c] = cs @ c # [] \<and> fold (try_cand u) (cs @ [c]) n = take_cand u c n \<and>
       e c < err n \<and> (\<forall>c'\<in>set cs. e c < e c') \<and> (\<forall>c'\<in>set []. e c \<le> e c')"
        using True by simp
      then show ?thesis by blast
    next
      case False
      with same step all show ?thesis by auto
    qed
  next
    fix pre c0 post
    assume cs: "cs = pre @ c0 # post" and r: "?r = take_cand u c0 n"
      and lt: "e c0 < err n" and pre: "\<forall>c'\<in>set pre. e c0 < e c'"
      and post: "\<forall>c'\<in>set post. e c0 \<le> e c'"
    have er: "err ?r = e c0"
      by (simp add: r err_take_cand e_def)
    show ?thesis
    proof (cases "e c < e c0")
      case True
      with step er r have "fold (try_cand u) (cs @ [c]) n = take_cand u c n"
        by (simp add: take_cand_take_cand)
      moreover from True pre post cs have "\<forall>c'\<in>set cs. e c < e c'" by fastforce
      moreover from True lt have "e c < err n" by simp
      ultimately have "cs @ [c] = cs @ c # [] \<and> fold (try_cand u) (cs @ [c]) n = take_cand u c n \<and>
       e c < err n \<and> (\<forall>c'\<in>set cs. e c < e c') \<and> (\<forall>c'\<in>set []. e c \<le> e c')"
        by simp
      then show ?thesis by blast
    next
      case False
      with step er r have "fold (try_cand u) (cs @ [c]) n = take_cand u c0 n" by simp
      moreover from False post have "\<forall>c'\<in>set (post @ [c]). e c0 \<le> e c'" by auto
      moreover have "cs @ [c] = pre @ c0 # (post @ [c])" by (simp add: cs)
      ultimately show ?thesis using lt pre by blast
    qed
  qed
qed

section \<open>Rounding\<close>

lemma ieee_double_exact: "ieee_double exact"
  by (simp add: ieee_double_def exact_def)

lemma representable_0: "representable 0"
  unfolding representable_def by (rule exI [of _ 0], rule exI [of _ 0]) simp

lemma representable_int: "\<bar>k\<bar> < 2 ^ 53 \<Longrightarrow> representable (real_of_int k)"
  unfolding representable_def by (rule exI [of _ k], rule exI [of _ 0]) simp

lemma representable_u32_16: "representable (real (unat (w :: 32 word)) * 0.0625)"
proof -
  have "uint w < 2 ^ 32"
    using uint_bounded [of w] by simp
  then have "\<bar>uint w\<bar> < 2 ^ 53"
    by simp
  moreover have "real (unat w) * 0.0625 = real_of_int (uint w) * 2 powr real_of_int (- 4)"
    by (simp add: powr_minus_divide)
  ultimately show ?thesis
    unfolding representable_def by (intro exI [of _ "uint w"] exI [of _ "- 4"]) simp
qed

lemma rnd_representable: "ieee_double u \<Longrightarrow> representable x \<Longrightarrow> rnd u x = x"
  by (simp add: ieee_double_def)

lemma normal_range:
  assumes "1 / 2 ^ 20 \<le> \<bar>x\<bar>" and "\<bar>x\<bar> \<le> 2 ^ 40"
  shows "2 powr - 1022 \<le> \<bar>x :: real\<bar> \<and> \<bar>x\<bar> \<le> 2 powr 1023"
proof -
  have "(2 :: real) powr - 1022 \<le> 2 powr - 20"
    by (rule powr_mono) simp_all
  also have "(2 :: real) powr - 20 = 1 / 2 ^ 20"
    by (simp add: powr_minus_divide)
  finally have lo: "2 powr - 1022 \<le> \<bar>x\<bar>"
    using assms(1) by simp
  have "(2 :: real) ^ 40 = 2 powr 40"
    by simp
  also have "\<dots> \<le> 2 powr 1023"
    by (rule powr_mono) simp_all
  finally have "\<bar>x\<bar> \<le> 2 powr 1023"
    using assms(2) by simp
  with lo show ?thesis ..
qed

lemma rnd_close:
  assumes "ieee_double u" and "1 / 2 ^ 20 \<le> \<bar>x\<bar>" and "\<bar>x\<bar> \<le> 2 ^ 40"
  shows "\<bar>rnd u x - x\<bar> \<le> \<bar>x\<bar> / 2 ^ 53"
  using assms(1) normal_range [OF assms(2,3)] unfolding ieee_double_def by blast

lemma rnd_pos_bounds:
  assumes "ieee_double u" and "1 / 2 ^ 20 \<le> x" and "x \<le> 2 ^ 40"
  shows "x * (1 - 1 / 2 ^ 53) \<le> rnd u x" and "rnd u x \<le> x * (1 + 1 / 2 ^ 53)"
proof -
  from assms(2) have "0 < x"
    by (rule less_le_trans [rotated]) simp
  then have "\<bar>rnd u x - x\<bar> \<le> x / 2 ^ 53"
    using rnd_close [OF assms(1), of x] assms(2,3) by simp
  then have "rnd u x - x \<le> x / 2 ^ 53" and "- (rnd u x - x) \<le> x / 2 ^ 53"
    by (rule abs_le_D1, rule abs_le_D2)
  then show "x * (1 - 1 / 2 ^ 53) \<le> rnd u x" and "rnd u x \<le> x * (1 + 1 / 2 ^ 53)"
    by (simp_all add: algebra_simps)
qed

section \<open>Rounding to nearest is such a rounding\<close>

text \<open>
  The unit \<open>binary64\<close> is an \<open>ieee_double\<close> unit: rounding to nearest returns a double
  unchanged and has a relative error of at most \<open>2 ^ - 53\<close> in the normal range.
\<close>

lemma rint_of_int: "rint (of_int k) = k"
  by (simp add: rint_def)

lemma rint_close: "\<bar>of_int (rint y) - y\<bar> \<le> 1 / 2"
proof -
  have "of_int \<lfloor>y\<rfloor> \<le> y" and "y < of_int \<lfloor>y\<rfloor> + 1"
    by linarith+
  then show ?thesis
    by (auto simp: rint_def Let_def abs_le_iff)
qed

lemma floor_log2:
  assumes "x \<noteq> 0"
  shows "2 powr of_int \<lfloor>log 2 \<bar>x\<bar>\<rfloor> \<le> \<bar>x\<bar>"
proof -
  have "2 powr of_int \<lfloor>log 2 \<bar>x\<bar>\<rfloor> \<le> 2 powr log 2 \<bar>x\<bar>"
    by (intro powr_mono) simp_all
  also have "\<dots> = \<bar>x\<bar>"
    using assms by simp
  finally show ?thesis .
qed

lemma ulp_exp_normal:
  assumes "2 powr - 1022 \<le> \<bar>x\<bar>"
  shows "ulp_exp x = \<lfloor>log 2 \<bar>x\<bar>\<rfloor> - 52"
proof -
  have pos: "0 < \<bar>x\<bar>"
    using assms by (rule less_le_trans [rotated]) simp
  have "log 2 (2 powr - 1022) \<le> log 2 \<bar>x\<bar>"
    using assms pos log_le_cancel_iff [of 2 "2 powr - 1022" "\<bar>x\<bar>"] by simp
  then have "- 1022 \<le> log 2 \<bar>x\<bar>"
    by simp
  then have "- 1022 \<le> \<lfloor>log 2 \<bar>x\<bar>\<rfloor>"
    by (simp add: le_floor_iff)
  then have "- 1074 \<le> \<lfloor>log 2 \<bar>x\<bar>\<rfloor> - 52"
    by linarith
  then show ?thesis
    unfolding ulp_exp_def by (rule max_absorb1)
qed

lemma round_to_nearest_close:
  assumes "2 powr - 1022 \<le> \<bar>x\<bar>"
  shows "\<bar>round_to_nearest x - x\<bar> \<le> \<bar>x\<bar> / 2 ^ 53"
proof -
  have x: "x \<noteq> 0"
    using assms by auto
  define L where "L = \<lfloor>log 2 \<bar>x\<bar>\<rfloor>"
  define s :: real where "s = 2 powr of_int (L - 52)"
  have s: "0 < s"
    by (simp add: s_def)
  have q: "ulp_exp x = L - 52"
    unfolding L_def using assms by (rule ulp_exp_normal)
  have "round_to_nearest x - x = (of_int (rint (x / s)) - x / s) * s"
    using x s by (simp add: round_to_nearest_def q s_def algebra_simps)
  then have "\<bar>round_to_nearest x - x\<bar> = \<bar>of_int (rint (x / s)) - x / s\<bar> * s"
    using s by (simp add: abs_mult)
  also have "\<dots> \<le> 1 / 2 * s"
    using s rint_close [of "x / s"] by (intro mult_right_mono) simp_all
  also have "\<dots> = 2 powr of_int L / 2 ^ 53"
  proof -
    have "s = 2 powr (of_int L - 52)"
      by (simp add: s_def)
    also have "\<dots> = 2 powr of_int L / 2 powr 52"
      by (rule powr_diff)
    also have "(2 :: real) powr 52 = 2 ^ 52"
      using powr_realpow [of "2 :: real" 52] by simp
    finally show ?thesis
      by simp
  qed
  also have "\<dots> \<le> \<bar>x\<bar> / 2 ^ 53"
    using floor_log2 [OF x] by (intro divide_right_mono) (simp_all add: L_def)
  finally show ?thesis .
qed

lemma round_to_nearest_representable:
  assumes "representable x"
  shows "round_to_nearest x = x"
proof (cases "x = 0")
  case True
  then show ?thesis
    by (simp add: round_to_nearest_def)
next
  case False
  from assms obtain m e where m: "\<bar>m\<bar> < 2 ^ 53" and e: "- 1074 \<le> e"
    and x: "x = real_of_int m * 2 powr real_of_int e"
    unfolding representable_def by blast
  define q where "q = ulp_exp x"
  have "\<bar>x\<bar> = real_of_int \<bar>m\<bar> * 2 powr real_of_int e"
    by (simp add: x abs_mult)
  also have "\<dots> < 2 ^ 53 * 2 powr real_of_int e"
  proof (rule mult_strict_right_mono)
    from m have "real_of_int \<bar>m\<bar> < real_of_int (2 ^ 53)"
      by (simp only: of_int_less_iff)
    then show "real_of_int \<bar>m\<bar> < 2 ^ 53"
      by simp
  qed simp
  also have "(2 :: real) ^ 53 = 2 powr 53"
    using powr_realpow [of "2 :: real" 53] by simp
  also have "2 powr 53 * 2 powr real_of_int e = 2 powr (53 + real_of_int e)"
    by (simp add: powr_add)
  finally have "\<bar>x\<bar> < 2 powr (53 + real_of_int e)" .
  then have "log 2 \<bar>x\<bar> < log 2 (2 powr (53 + real_of_int e))"
    using False log_less_cancel_iff [of 2 "\<bar>x\<bar>" "2 powr (53 + real_of_int e)"] by simp
  then have "log 2 \<bar>x\<bar> < real_of_int (53 + e)"
    by simp
  then have "\<lfloor>log 2 \<bar>x\<bar>\<rfloor> < 53 + e"
    by (simp only: floor_less_iff)
  with e have qe: "q \<le> e"
    by (simp add: q_def ulp_exp_def)
  define k where "k = m * 2 ^ nat (e - q)"
  have "2 powr real_of_int e = 2 powr real_of_int (e - q) * 2 powr real_of_int q"
    by (simp add: powr_add [symmetric])
  also have "2 powr real_of_int (e - q) = 2 ^ nat (e - q)"
    using qe powr_realpow [of "2 :: real" "nat (e - q)"] by simp
  finally have xk: "x = real_of_int k * 2 powr real_of_int q"
    by (simp add: x k_def)
  then have "x / 2 powr real_of_int q = real_of_int k"
    by simp
  then have r: "rint (x / 2 powr real_of_int q) = k"
    by (simp only: rint_of_int)
  have "round_to_nearest x =
      real_of_int (rint (x / 2 powr real_of_int q)) * 2 powr real_of_int q"
    using False by (simp only: round_to_nearest_def q_def if_False)
  also have "\<dots> = real_of_int k * 2 powr real_of_int q"
    by (simp only: r)
  also have "\<dots> = x"
    by (rule xk [symmetric])
  finally show ?thesis .
qed

lemma ieee_double_binary64: "ieee_double binary64"
proof -
  have one: "representable 1"
    using representable_int [of 1] by simp
  have "\<bar>round_to_nearest (2 powr y) - 2 powr y\<bar> \<le> 2 powr y / 2 ^ 50"
    if "\<bar>y\<bar> \<le> 1000" for y :: real
  proof -
    have "(2 :: real) powr - 1022 \<le> 2 powr y"
      using that by (intro powr_mono) simp_all
    then have "\<bar>round_to_nearest (2 powr y) - 2 powr y\<bar> \<le> \<bar>2 powr y\<bar> / 2 ^ 53"
      by (intro round_to_nearest_close) simp
    also have "\<dots> \<le> 2 powr y / 2 ^ 50"
      by (simp add: field_simps)
    finally show ?thesis .
  qed
  moreover have "round_to_nearest (2 powr 0) = 1"
    using round_to_nearest_representable [OF one] by simp
  moreover have "\<forall>x. 2 powr - 1022 \<le> \<bar>x\<bar> \<and> \<bar>x\<bar> \<le> 2 powr 1023 \<longrightarrow>
      \<bar>round_to_nearest x - x\<bar> \<le> \<bar>x\<bar> / 2 ^ 53"
    using round_to_nearest_close by blast
  moreover have "\<forall>x. representable x \<longrightarrow> round_to_nearest x = x"
    using round_to_nearest_representable by blast
  ultimately show ?thesis
    unfolding ieee_double_def binary64_def by (simp only: fpu.simps) blast
qed

section \<open>The output frequencies of the candidates\<close>

text \<open>
  The divisor of a candidate is exact, its output frequency lies between 14 and
  400000000, and the first candidate of the search, with the output frequency
  280000000, has an error below the sentinel 9999999999.
\<close>

lemma cand_divf_exact: "ieee_double u \<Longrightarrow> cand_divf u dv = real (unat dv) / 16"
  using rnd_representable [OF _ representable_u32_16, of u dv]
  by (simp add: cand_divf_def fmul_def)

lemma rnd_280000000: "ieee_double u \<Longrightarrow> rnd u 280000000 = 280000000"
  using rnd_representable [OF _ representable_int, of u 280000000] by simp

lemma cand_out_freq_first:
  assumes "ieee_double u"
  shows "cand_out_freq u 16 0 = 280000000"
proof -
  have "cand_divf u 16 = 1"
    using assms by (simp add: cand_divf_exact)
  then show ?thesis
    using assms by (simp add: cand_out_freq_def fdiv_def SYS_FREQ_HZ_def rnd_280000000)
qed

lemma cand_err_first:
  assumes u: "ieee_double u" and f: "0 \<le> f" "f \<le> 4000"
  shows "cand_err u f 16 0 < 9999999999"
proof -
  let ?x = "f - 280000000"
  have x: "?x \<le> - 279996000" "- 280000000 \<le> ?x"
    using f by simp_all
  then have ax: "\<bar>?x\<bar> \<le> 280000000" "279996000 \<le> \<bar>?x\<bar>"
    by simp_all
  have "\<bar>rnd u ?x - ?x\<bar> \<le> \<bar>?x\<bar> / 2 ^ 53"
    using u ax by (intro rnd_close) simp_all
  also have "\<dots> \<le> 1"
    using ax by simp
  finally have "\<bar>rnd u ?x\<bar> \<le> 280000001"
    using ax by linarith
  then show ?thesis
    using u by (simp add: cand_err_def fabs_def fsub_def cand_out_freq_first)
qed

lemma rnd_lower:
  assumes "ieee_double u" and "1 / 2 ^ 20 \<le> a" "a \<le> x" "x \<le> 2 ^ 40"
  shows "a * (1 - 1 / 2 ^ 53) \<le> rnd u x"
proof -
  have "x * (1 - 1 / 2 ^ 53) \<le> rnd u x"
    using assms by (intro rnd_pos_bounds) simp_all
  moreover have "a * (1 - 1 / 2 ^ 53) \<le> x * (1 - 1 / 2 ^ 53)"
    using assms(3) by (intro mult_right_mono) simp_all
  ultimately show ?thesis
    by linarith
qed

lemma rnd_upper:
  assumes "ieee_double u" and "1 / 2 ^ 20 \<le> x" "x \<le> b" "b \<le> 2 ^ 40"
  shows "rnd u x \<le> b * (1 + 1 / 2 ^ 53)"
proof -
  have "rnd u x \<le> x * (1 + 1 / 2 ^ 53)"
    using assms by (intro rnd_pos_bounds) simp_all
  moreover have "x * (1 + 1 / 2 ^ 53) \<le> b * (1 + 1 / 2 ^ 53)"
    using assms(3) by (intro mult_right_mono) simp_all
  ultimately show ?thesis
    by linarith
qed

lemma cand_out_freq_bounds:
  assumes u: "ieee_double u"
    and dv: "16 \<le> unat dv" "unat dv \<le> 4095" and tp: "unat tp \<le> 65535"
  shows "14 \<le> cand_out_freq u dv tp" and "cand_out_freq u dv tp \<le> 400000000"
proof -
  define d where "d = real (unat dv)"
  define t where "t = real (unat (tp + 1))"
  have "real 16 \<le> d" "d \<le> real 4095"
    unfolding d_def using dv by (simp_all only: of_nat_le_iff)
  then have d: "16 \<le> d" "d \<le> 4095"
    by simp_all
  have "unat (tp + 1) = unat tp + 1"
    using tp by (intro unat_word_succ) simp
  then have "real 1 \<le> t" "t \<le> real 65536"
    unfolding t_def using tp by (simp_all only: of_nat_le_iff)
  then have t: "1 \<le> t" "t \<le> 65536"
    by simp_all
  define x1 where "x1 = 280000000 / (d / 16)"
  have x1: "1000000 \<le> x1" "x1 \<le> 280000000"
    using d by (simp_all add: x1_def field_simps)
  define fd where "fd = rnd u x1"
  have "1000000 * (1 - 1 / 2 ^ 53) \<le> fd"
    unfolding fd_def using u x1 by (intro rnd_lower) simp_all
  moreover have "fd \<le> 280000000 * (1 + 1 / 2 ^ 53)"
    unfolding fd_def using u x1 by (intro rnd_upper) simp_all
  ultimately have fd: "999999 \<le> fd" "fd \<le> 300000000"
    by simp_all
  define x2 where "x2 = fd / t"
  have "999999 / 65536 \<le> fd / t"
    using fd t by (intro frac_le) simp_all
  moreover have "(15 :: real) \<le> 999999 / 65536"
    by simp
  moreover have "fd / t \<le> 300000000 / 1"
    using fd t by (intro frac_le) simp_all
  ultimately have x2: "15 \<le> x2" "x2 \<le> 300000000"
    unfolding x2_def by linarith+
  have out: "cand_out_freq u dv tp = rnd u x2"
    using u by (simp add: cand_out_freq_def fdiv_def SYS_FREQ_HZ_def cand_divf_exact
        x2_def fd_def x1_def d_def t_def)
  have "15 * (1 - 1 / 2 ^ 53) \<le> rnd u x2"
    using u x2 by (intro rnd_lower) simp_all
  moreover have "rnd u x2 \<le> 300000000 * (1 + 1 / 2 ^ 53)"
    using u x2 by (intro rnd_upper) simp_all
  ultimately show "14 \<le> cand_out_freq u dv tp" and "cand_out_freq u dv tp \<le> 400000000"
    unfolding out by simp_all
qed

section \<open>The target frequencies\<close>

text \<open>
  The double that line 52 computes for a note is within a relative error of
  \<open>2 ^ - 48\<close> of the real target frequency, which grows by the factor \<open>2 ^ (1 / 12)\<close>,
  more than 1.05, from one note to the next.
\<close>

lemma two_powr_inverse_le:
  fixes N :: nat
  assumes "0 < N"
  shows "2 powr (1 / real N) \<le> 1 + 1 / real N"
proof -
  let ?b = "1 + 1 / real N"
  have "- 1 \<le> 1 / real N"
    by (rule order_trans [of _ 0]) simp_all
  then have "1 + real N * (1 / real N) \<le> ?b ^ N"
    by (rule Bernoulli_inequality)
  then have "2 \<le> ?b ^ N"
    using assms by simp
  also have "?b ^ N = ?b powr real N"
    by (simp add: powr_realpow add_pos_nonneg)
  finally have "2 powr (1 / real N) \<le> (?b powr real N) powr (1 / real N)"
    by (intro powr_mono2) simp_all
  also have "\<dots> = ?b"
    using assms by (simp add: powr_powr)
  finally show ?thesis .
qed

lemma two_powr_small:
  fixes N :: nat and t :: real
  assumes N: "0 < N" and t: "\<bar>t\<bar> \<le> 1 / real N"
  shows "1 - 1 / real N \<le> 2 powr t" and "2 powr t \<le> 1 + 1 / real N"
proof -
  let ?e = "1 / real N"
  have e: "0 < ?e" "?e \<le> 1"
    using N by simp_all
  have up: "2 powr ?e \<le> 1 + ?e"
    using N by (rule two_powr_inverse_le)
  have "t \<le> ?e" and "- ?e \<le> t"
    using t by (simp_all add: abs_le_iff)
  have "2 powr t \<le> 2 powr ?e"
    using \<open>t \<le> ?e\<close> by (intro powr_mono) simp_all
  then show "2 powr t \<le> 1 + ?e"
    using up by (rule order_trans)
  have "(1 - ?e) * (1 + ?e) \<le> 1"
    by (simp add: algebra_simps)
  moreover have pos: "0 < 1 + ?e"
    by (rule add_pos_nonneg) simp_all
  ultimately have "1 - ?e \<le> 1 / (1 + ?e)"
    by (simp only: pos_le_divide_eq)
  also have "\<dots> \<le> 1 / 2 powr ?e"
    using up pos by (intro divide_left_mono mult_pos_pos) simp_all
  also have "\<dots> = 2 powr - ?e"
    by (simp add: powr_minus_divide)
  also have "\<dots> \<le> 2 powr t"
    using \<open>- ?e \<le> t\<close> by (intro powr_mono) simp_all
  finally show "1 - ?e \<le> 2 powr t" .
qed

lemma rel_lower:
  fixes T l x b p :: real
  assumes b: "b \<le> 1" and x: "T * l \<le> x" and p: "\<bar>p - x\<bar> \<le> x * b"
  shows "T * (l * (1 - b)) \<le> p"
proof -
  from p have "- (p - x) \<le> x * b"
    by (rule abs_le_D2)
  then have "x * (1 - b) \<le> p"
    by (simp add: algebra_simps)
  moreover have "(T * l) * (1 - b) \<le> x * (1 - b)"
    using x b by (intro mult_right_mono) simp_all
  ultimately show ?thesis
    by (simp add: mult.assoc)
qed

lemma rel_upper:
  fixes T h x b p :: real
  assumes b: "0 \<le> b" and x: "x \<le> T * h" and p: "\<bar>p - x\<bar> \<le> x * b"
  shows "p \<le> T * (h * (1 + b))"
proof -
  from p have "p - x \<le> x * b"
    by (rule abs_le_D1)
  then have "p \<le> x * (1 + b)"
    by (simp add: algebra_simps)
  moreover have "x * (1 + b) \<le> (T * h) * (1 + b)"
    using x b by (intro mult_right_mono) simp_all
  ultimately show ?thesis
    by (simp add: mult.assoc)
qed

lemma note_exponent:
  assumes "i < 60"
  shows "real_of_int (int i + BASE_NOTE - 69) / 12 = (real i + 45 - 69) / 12"
  by (simp add: BASE_NOTE_def)

lemma rnd_exponent:
  assumes u: "ieee_double u" and i: "i < 60"
  defines "q \<equiv> (real i + 45 - 69) / 12"
  shows "\<bar>rnd u q - q\<bar> \<le> 1 / real (2 ^ 51 :: nat)"
proof (cases "i = 24")
  case True
  then have "q = 0"
    by (simp add: q_def)
  then show ?thesis
    using rnd_representable [OF u representable_0] by simp
next
  case False
  then have "i < 24 \<or> 24 < i"
    by arith
  then have "real i \<le> 23 \<or> 25 \<le> real i"
    by auto
  then have lo: "1 / 12 \<le> \<bar>q\<bar>"
    unfolding q_def by auto
  have hi: "\<bar>q\<bar> \<le> 3"
    using i unfolding q_def by auto
  have "\<bar>rnd u q - q\<bar> \<le> \<bar>q\<bar> / 2 ^ 53"
    using u lo hi by (intro rnd_close) simp_all
  also have "\<dots> \<le> 3 / 2 ^ 53"
    using hi by (intro divide_right_mono) simp_all
  also have "\<dots> \<le> 1 / real (2 ^ 51 :: nat)"
    by simp
  finally show ?thesis .
qed

lemma target_frequency_bounds:
  assumes "i < 60"
  shows "110 \<le> target_frequency i" and "target_frequency i \<le> 3520"
proof -
  let ?q = "(real i + 45 - 69) / 12"
  have "- 2 \<le> ?q" and "?q \<le> 3"
    using assms by simp_all
  then have "2 powr - 2 \<le> 2 powr ?q" and "2 powr ?q \<le> 2 powr 3"
    by (simp_all only: powr_le_cancel_iff one_less_numeral_iff semiring_norm)
  moreover have "(2 :: real) powr - 2 = 1 / 4"
    by (simp add: powr_minus_divide)
  moreover have "(2 :: real) powr 3 = 8"
    using powr_realpow [of "2 :: real" 3] by simp
  ultimately show "110 \<le> target_frequency i" and "target_frequency i \<le> 3520"
    by (simp_all add: target_frequency_def)
qed

lemma note_freq_close:
  assumes u: "ieee_double u" and i: "i < 60"
  shows "target_frequency i * (1 - 1 / 2 ^ 48) \<le> note_freq u i"
    and "note_freq u i \<le> target_frequency i * (1 + 1 / 2 ^ 48)"
proof -
  define q where "q = (real i + 45 - 69) / 12"
  define y where "y = rnd u q"
  define p where "p = pow u 2 y"
  define T2 where "T2 = 2 powr q"
  define T where "T = target_frequency i"
  have T: "T = 440 * T2" "110 \<le> T" "T \<le> 3520"
    using target_frequency_bounds [OF i] by (simp_all add: T_def T2_def q_def target_frequency_def)
  have qb: "- 2 \<le> q" "q \<le> 3"
    using i by (simp_all add: q_def)
  have yq: "\<bar>y - q\<bar> \<le> 1 / real (2 ^ 51 :: nat)"
    unfolding y_def q_def using u i by (rule rnd_exponent)
  also have "\<dots> \<le> 1"
    by simp
  finally have "\<bar>y\<bar> \<le> 1000"
    using qb by linarith
  then have py: "\<bar>p - 2 powr y\<bar> \<le> 2 powr y * (1 / 2 ^ 50)"
    using u unfolding ieee_double_def p_def by simp
  have "2 powr y = T2 * 2 powr (y - q)"
    by (simp add: T2_def powr_add [symmetric])
  moreover have "1 - 1 / real (2 ^ 51 :: nat) \<le> 2 powr (y - q)"
    and "2 powr (y - q) \<le> 1 + 1 / real (2 ^ 51 :: nat)"
    using yq by (intro two_powr_small; simp)+
  ultimately have y2: "T2 * (1 - 1 / 2 ^ 51) \<le> 2 powr y" "2 powr y \<le> T2 * (1 + 1 / 2 ^ 51)"
    by (simp_all add: T2_def)
  have pb: "T2 * ((1 - 1 / 2 ^ 51) * (1 - 1 / 2 ^ 50)) \<le> p"
    "p \<le> T2 * ((1 + 1 / 2 ^ 51) * (1 + 1 / 2 ^ 50))"
    by (rule rel_lower [OF _ y2(1) py], simp, rule rel_upper [OF _ y2(2) py], simp)
  define z where "z = 440 * p"
  have zb: "T * ((1 - 1 / 2 ^ 51) * (1 - 1 / 2 ^ 50)) \<le> z"
    "z \<le> T * ((1 + 1 / 2 ^ 51) * (1 + 1 / 2 ^ 50))"
    using pb by (simp_all add: z_def T(1))
  have "110 * ((1 - 1 / 2 ^ 51) * (1 - 1 / 2 ^ 50)) \<le> T * ((1 - 1 / 2 ^ 51) * (1 - 1 / 2 ^ 50))"
    using T(2) by (intro mult_right_mono) simp_all
  moreover have "T * ((1 + 1 / 2 ^ 51) * (1 + 1 / 2 ^ 50)) \<le> 3520 * ((1 + 1 / 2 ^ 51) * (1 + 1 / 2 ^ 50))"
    using T(3) by (intro mult_right_mono) simp_all
  ultimately have zr: "100 \<le> z" "z \<le> 4000"
    using zb by simp_all
  have "\<bar>rnd u z - z\<bar> \<le> \<bar>z\<bar> / 2 ^ 53"
    using u zr by (intro rnd_close) simp_all
  then have rz: "\<bar>rnd u z - z\<bar> \<le> z * (1 / 2 ^ 53)"
    using zr by simp
  have F: "note_freq u i = rnd u z"
    by (simp add: note_freq_def fmul_def fdiv_def z_def p_def y_def q_def BASE_NOTE_def)
  have fb: "T * ((1 - 1 / 2 ^ 51) * (1 - 1 / 2 ^ 50) * (1 - 1 / 2 ^ 53)) \<le> rnd u z"
    "rnd u z \<le> T * ((1 + 1 / 2 ^ 51) * (1 + 1 / 2 ^ 50) * (1 + 1 / 2 ^ 53))"
    by (rule rel_lower [OF _ zb(1) rz], simp, rule rel_upper [OF _ zb(2) rz], simp)
  have "T * (1 - 1 / 2 ^ 48) \<le> T * ((1 - 1 / 2 ^ 51) * (1 - 1 / 2 ^ 50) * (1 - 1 / 2 ^ 53))"
    using T(2) by (intro mult_left_mono) simp_all
  with fb(1) show "target_frequency i * (1 - 1 / 2 ^ 48) \<le> note_freq u i"
    unfolding F T_def by linarith
  have "T * ((1 + 1 / 2 ^ 51) * (1 + 1 / 2 ^ 50) * (1 + 1 / 2 ^ 53)) \<le> T * (1 + 1 / 2 ^ 48)"
    using T(2) by (intro mult_left_mono) simp_all
  with fb(2) show "note_freq u i \<le> target_frequency i * (1 + 1 / 2 ^ 48)"
    unfolding F T_def by linarith
qed

lemma note_freq_24:
  assumes u: "ieee_double u"
  shows "note_freq u 24 = 440"
proof -
  have "rnd u 0 = 0"
    using u representable_0 by (rule rnd_representable)
  moreover have "pow u 2 0 = 1"
    using u by (simp add: ieee_double_def)
  moreover have "rnd u 440 = 440"
    using rnd_representable [OF u representable_int, of 440] by simp
  ultimately show ?thesis
    by (simp add: note_freq_def fmul_def fdiv_def BASE_NOTE_def)
qed

lemma semitone_ratio: "21 / 20 \<le> (2 :: real) powr (1 / 12)"
proof -
  have "(21 / 20 :: real) ^ 12 \<le> 2"
    by (simp add: power_divide)
  then have "((21 / 20 :: real) ^ 12) powr (1 / 12) \<le> 2 powr (1 / 12)"
    by (intro powr_mono2) simp_all
  moreover have "((21 / 20 :: real) ^ 12) powr (1 / 12) = 21 / 20"
  proof -
    have "(21 / 20 :: real) ^ 12 = (21 / 20) powr real (12 :: nat)"
      by (rule powr_realpow [symmetric]) simp
    then have "((21 / 20 :: real) ^ 12) powr (1 / 12) = (21 / 20) powr (real (12 :: nat) * (1 / 12))"
      by (simp only: powr_powr)
    also have "\<dots> = 21 / 20"
      by simp
    finally show ?thesis .
  qed
  ultimately show ?thesis
    by simp
qed

lemma target_frequency_mono:
  assumes "i \<le> j"
  shows "target_frequency i \<le> target_frequency j"
  using assms by (simp add: target_frequency_def)

lemma target_frequency_Suc:
  "target_frequency (Suc i) = target_frequency i * 2 powr (1 / 12)"
proof -
  have "(real (Suc i) + 45 - 69) / 12 = (real i + 45 - 69) / 12 + 1 / 12"
    by (simp add: field_simps)
  then show ?thesis
    by (simp only: target_frequency_def powr_add mult.assoc)
qed

lemma note_freq_strict_mono:
  assumes u: "ieee_double u" and ij: "i < j" and j: "j < 60"
  shows "note_freq u i < note_freq u j"
proof -
  from ij j have i: "i < 60"
    by simp
  let ?T = "target_frequency i"
  have T: "110 \<le> ?T"
    using i by (rule target_frequency_bounds)
  have "note_freq u i \<le> ?T * (1 + 1 / 2 ^ 48)"
    using u i by (rule note_freq_close)
  also have "\<dots> < ?T * (21 / 20 * (1 - 1 / 2 ^ 48))"
    using T by (intro mult_strict_left_mono) simp_all
  also have "\<dots> = (?T * (21 / 20)) * (1 - 1 / 2 ^ 48)"
    by simp
  also have "\<dots> \<le> (?T * 2 powr (1 / 12)) * (1 - 1 / 2 ^ 48)"
    using T semitone_ratio by (intro mult_right_mono mult_left_mono) simp_all
  also have "\<dots> = target_frequency (Suc i) * (1 - 1 / 2 ^ 48)"
    by (simp only: target_frequency_Suc)
  also have "\<dots> \<le> target_frequency j * (1 - 1 / 2 ^ 48)"
    using ij by (intro mult_right_mono target_frequency_mono) simp_all
  also have "\<dots> \<le> note_freq u j"
    using u j by (rule note_freq_close)
  finally show ?thesis .
qed

lemma note_freq_error:
  assumes u: "ieee_double u" and i: "i < 60"
  shows "\<bar>note_freq u i - target_frequency i\<bar> \<le> target_frequency i / 2 ^ 48"
proof -
  have "target_frequency i * (1 - 1 / 2 ^ 48) \<le> note_freq u i"
    and "note_freq u i \<le> target_frequency i * (1 + 1 / 2 ^ 48)"
    using u i by (rule note_freq_close)+
  then have "note_freq u i - target_frequency i \<le> target_frequency i / 2 ^ 48"
    and "- (note_freq u i - target_frequency i) \<le> target_frequency i / 2 ^ 48"
    by (simp_all add: algebra_simps)
  then show ?thesis
    by (rule abs_leI)
qed

section \<open>The search space\<close>

text \<open>
  The pairs of the search space are those with the divider in 16 to 4095 and the wrap
  in 0 to 65535, and the list \<open>search_space\<close> has them in the order \<open>earlier\<close>.
\<close>

lemma unat_of_nat_u32: "k < 2 ^ 32 \<Longrightarrow> unat (of_nat k :: 32 word) = k"
  by (simp add: unat_of_nat)

lemma of_nat_image_u32:
  assumes "b \<le> 2 ^ 32"
  shows "(w :: 32 word) \<in> of_nat ` {a..<b} \<longleftrightarrow> a \<le> unat w \<and> unat w < b"
proof
  assume "w \<in> of_nat ` {a..<b}"
  then obtain k where k: "w = of_nat k" "a \<le> k" "k < b"
    by auto
  with assms have "unat w = k"
    by (simp add: unat_of_nat_u32)
  with k show "a \<le> unat w \<and> unat w < b"
    by simp
next
  assume "a \<le> unat w \<and> unat w < b"
  then have "unat w \<in> {a..<b}"
    by simp
  then have "of_nat (unat w) \<in> (of_nat ` {a..<b} :: 32 word set)"
    by (rule imageI)
  then show "w \<in> of_nat ` {a..<b}"
    by simp
qed

lemma set_search_space:
  "c \<in> set search_space \<longleftrightarrow>
     16 \<le> unat (fst c) \<and> unat (fst c) < 4096 \<and> unat (snd c) < 65536"
proof -
  have "c \<in> set search_space \<longleftrightarrow>
      fst c \<in> of_nat ` {16..<4096} \<and> snd c \<in> of_nat ` {0..<65536}"
    unfolding search_space_def by (cases c) (simp only: set_product set_map set_upt mem_Sigma_iff fst_conv snd_conv)
  then show ?thesis
    by (simp add: of_nat_image_u32)
qed

lemma sorted_wrt_of_nat_upt:
  assumes "b \<le> 2 ^ 32"
  shows "sorted_wrt (<) (map of_nat [a..<b] :: 32 word list)"
proof -
  have "sorted_wrt (\<lambda>x y. (of_nat x :: 32 word) < of_nat y) [a..<b]"
  proof (rule sorted_wrt_mono_rel [of "[a..<b]" "(<)"])
    fix x y
    assume "x \<in> set [a..<b]" "y \<in> set [a..<b]" "x < y"
    with assms have "x < 2 ^ 32" "y < 2 ^ 32" "x < y"
      by simp_all
    then show "(of_nat x :: 32 word) < of_nat y"
      by (simp add: word_less_nat_alt unat_of_nat_u32)
  next
    show "sorted_wrt (<) [a..<b]"
      by (rule sorted_wrt_upt)
  qed
  then show ?thesis
    by (simp add: sorted_wrt_map)
qed

lemma sorted_wrt_product:
  fixes xs :: "'a :: order list" and ys :: "'b :: order list"
  assumes "sorted_wrt (<) xs" and "sorted_wrt (<) ys"
  shows "sorted_wrt (\<lambda>c c'. fst c < fst c' \<or> (fst c = fst c' \<and> snd c < snd c')) (List.product xs ys)"
  using assms(1)
proof (induction xs)
  case Nil
  show ?case by simp
next
  case (Cons x xs)
  have "sorted_wrt (\<lambda>c c'. fst c < fst c' \<or> (fst c = fst c' \<and> snd c < snd c')) (map (Pair x) ys)"
    using assms(2) by (simp add: sorted_wrt_map)
  with Cons show ?case
    by (auto simp: sorted_wrt_append)
qed

lemma sorted_search_space: "sorted_wrt earlier search_space"
proof -
  have "sorted_wrt (\<lambda>c c'. fst c < fst c' \<or> (fst c = fst c' \<and> snd c < snd c')) search_space"
    unfolding search_space_def
    by (intro sorted_wrt_product sorted_wrt_of_nat_upt) simp_all
  then show ?thesis
    by (simp add: earlier_def [abs_def])
qed

lemma not_earlier_self: "\<not> earlier c c"
  by (simp add: earlier_def)

lemma earlier_asym: "earlier c c' \<Longrightarrow> \<not> earlier c' c"
  by (auto simp: earlier_def)

lemma sorted_wrt_in_prefix:
  assumes "sorted_wrt R (pre @ c # post)" and "\<And>a b. R a b \<Longrightarrow> \<not> R b a"
    and "c' \<in> set (pre @ c # post)" and "R c' c"
  shows "c' \<in> set pre"
proof (rule ccontr)
  assume "c' \<notin> set pre"
  with assms(3) have "c' = c \<or> c' \<in> set post"
    by auto
  then show False
  proof
    assume "c' = c"
    with assms(2,4) show False
      by blast
  next
    assume "c' \<in> set post"
    with assms(1) have "R c c'"
      by (simp add: sorted_wrt_append)
    with assms(2,4) show False
      by blast
  qed
qed

lemma earlier_in_prefix:
  assumes "sorted_wrt earlier (pre @ c # post)"
    and "c' \<in> set (pre @ c # post)" and "earlier c' c"
  shows "c' \<in> set pre"
  using assms(1) earlier_asym assms(2,3) by (rule sorted_wrt_in_prefix)


section \<open>The result of the search\<close>

lemma NOTE_CNT_60: "NOTE_CNT = 60"
  by (simp add: NOTE_CNT_def OCTAVES_def)

lemma init_loop_nth:
  assumes "i < NOTE_CNT"
  shows "init_loop u 0 notes0 ! i =
    \<lparr>freq = note_freq u i, top_reg = 0, div_reg = 0, divf = 0, out_freq = - 1, err = 9999999999\<rparr>"
proof -
  have "init_loop u 0 notes0 = map (\<lambda>k. init_note u k (notes0 ! k)) [0..<NOTE_CNT]"
    by (simp add: init_loop_take_drop notes0_def)
  then have "init_loop u 0 notes0 ! i = init_note u i (notes0 ! i)"
    using assms by simp
  then show ?thesis
    using assms by (simp add: init_note_def notes0_def note_freq_def)
qed

lemma search_in_order_nth:
  assumes "i < NOTE_CNT"
  shows "search_in_order u cs ! i = fold (try_cand u) cs (init_loop u 0 notes0 ! i)"
  using assms by (simp add: search_in_order_def length_init_loop)

lemma length_search_in_order: "length (search_in_order u cs) = NOTE_CNT"
  by (simp add: search_in_order_def length_init_loop)

lemma length_search: "length (search u) = NOTE_CNT"
  by (simp add: search_eq_in_order length_search_in_order)

lemma freq_search_in_order:
  assumes "i < NOTE_CNT"
  shows "freq (search_in_order u cs ! i) = note_freq u i"
  using assms by (simp add: search_in_order_nth freq_fold_try_cand init_loop_nth)

lemma note_freq_range:
  assumes "ieee_double u" and "i < NOTE_CNT"
  shows "0 \<le> note_freq u i" and "note_freq u i \<le> 4000"
proof -
  from assms(2) have i: "i < 60"
    by (simp add: NOTE_CNT_60)
  have "110 * (1 - 1 / 2 ^ 48) \<le> target_frequency i * (1 - 1 / 2 ^ 48)"
    using target_frequency_bounds(1) [OF i] by (intro mult_right_mono) simp_all
  with note_freq_close(1) [OF assms(1) i] show "0 \<le> note_freq u i"
    by simp
  have "target_frequency i * (1 + 1 / 2 ^ 48) \<le> 3520 * (1 + 1 / 2 ^ 48)"
    using target_frequency_bounds(2) [OF i] by (intro mult_right_mono) simp_all
  with note_freq_close(2) [OF assms(1) i] show "note_freq u i \<le> 4000"
    by simp
qed

lemma first_cand_in_space: "(16, 0) \<in> set search_space"
  by (simp add: set_search_space)

text \<open>The result of a search in any order that tries the first candidate.\<close>

lemma search_in_order_best:
  assumes u: "ieee_double u" and i: "i < NOTE_CNT" and first: "(16, 0) \<in> set cs"
  obtains pre c post where "cs = pre @ c # post"
    and "search_in_order u cs ! i = take_cand u c (init_loop u 0 notes0 ! i)"
    and "\<forall>c'\<in>set pre. cand_err u (note_freq u i) (fst c) (snd c)
           < cand_err u (note_freq u i) (fst c') (snd c')"
    and "\<forall>c'\<in>set post. cand_err u (note_freq u i) (fst c) (snd c)
           \<le> cand_err u (note_freq u i) (fst c') (snd c')"
proof -
  let ?n = "init_loop u 0 notes0 ! i"
  have n: "freq ?n = note_freq u i" "err ?n = 9999999999"
    using i by (simp_all add: init_loop_nth)
  have "cand_err u (note_freq u i) 16 0 < 9999999999"
    using u note_freq_range [OF u i] by (intro cand_err_first) simp_all
  with first have "\<not> (\<forall>c\<in>set cs. err ?n \<le> cand_err u (freq ?n) (fst c) (snd c))"
    unfolding n by force
  with fold_try_cand_cases [of u cs ?n] obtain pre c post
    where "cs = pre @ c # post" "fold (try_cand u) cs ?n = take_cand u c ?n"
      "\<forall>c'\<in>set pre. cand_err u (freq ?n) (fst c) (snd c) < cand_err u (freq ?n) (fst c') (snd c')"
      "\<forall>c'\<in>set post. cand_err u (freq ?n) (fst c) (snd c) \<le> cand_err u (freq ?n) (fst c') (snd c')"
    by blast
  then show thesis
    using i by (intro that [of pre c post]) (simp_all add: search_in_order_nth n)
qed


lemma search_best:
  assumes u: "ieee_double u" and i: "i < NOTE_CNT"
  obtains c where "c \<in> set search_space"
    and "search u ! i = take_cand u c (init_loop u 0 notes0 ! i)"
    and "\<forall>c'\<in>set search_space. cand_err u (note_freq u i) (fst c) (snd c)
           \<le> cand_err u (note_freq u i) (fst c') (snd c')"
    and "\<forall>c'\<in>set search_space. earlier c' c \<longrightarrow>
           cand_err u (note_freq u i) (fst c) (snd c) < cand_err u (note_freq u i) (fst c') (snd c')"
proof -
  from search_in_order_best [OF u i first_cand_in_space] obtain pre c post
    where cs: "search_space = pre @ c # post"
      and r: "search_in_order u search_space ! i = take_cand u c (init_loop u 0 notes0 ! i)"
      and pre: "\<forall>c'\<in>set pre. cand_err u (note_freq u i) (fst c) (snd c)
           < cand_err u (note_freq u i) (fst c') (snd c')"
      and post: "\<forall>c'\<in>set post. cand_err u (note_freq u i) (fst c) (snd c)
           \<le> cand_err u (note_freq u i) (fst c') (snd c')"
    by blast
  have "\<forall>c'\<in>set search_space. cand_err u (note_freq u i) (fst c) (snd c)
           \<le> cand_err u (note_freq u i) (fst c') (snd c')"
    unfolding cs using pre post by (auto intro: less_imp_le)
  moreover have "\<forall>c'\<in>set search_space. earlier c' c \<longrightarrow>
           cand_err u (note_freq u i) (fst c) (snd c) < cand_err u (note_freq u i) (fst c') (snd c')"
  proof (intro ballI impI)
    fix c'
    assume "c' \<in> set search_space" and "earlier c' c"
    with sorted_search_space have "c' \<in> set pre"
      unfolding cs by (intro earlier_in_prefix [of pre c post c'])
    with pre show "cand_err u (note_freq u i) (fst c) (snd c)
           < cand_err u (note_freq u i) (fst c') (snd c')"
      by simp
  qed
  moreover have "c \<in> set search_space"
    by (simp add: cs)
  ultimately show thesis
    using r by (intro that [of c]) (simp_all add: search_eq_in_order)
qed

lemma take_cand_fields:
  "freq (take_cand u c n) = freq n"
  "out_freq (take_cand u c n) = cand_out_freq u (fst c) (snd c)"
  "err (take_cand u c n) = cand_err u (freq n) (fst c) (snd c)"
  "top_reg (take_cand u c n) = snd c"
  "div_reg (take_cand u c n) = fst c"
  "divf (take_cand u c n) = cand_divf u (fst c)"
  by (simp_all add: take_cand_def)

lemma unat_succ_wrap:
  fixes tp :: "32 word"
  assumes "unat tp < 65536"
  shows "real (unat (tp + 1)) = real (unat tp + 1)"
  using unat_word_succ [OF assms] by (simp only:)

lemma cand_out_freq_eq:
  assumes "unat tp < 65536"
  shows "cand_out_freq u dv tp = output_frequency u (unat dv) (unat tp)"
  unfolding cand_out_freq_def output_frequency_def cand_divf_def Let_def SYS_FREQ_HZ_def
  by (simp only: unat_succ_wrap [OF assms] of_int_numeral)

lemma in_search_space_nat:
  assumes "16 \<le> raw" "raw \<le> 4095" "wrap \<le> 65535"
  shows "(of_nat raw, of_nat wrap) \<in> set search_space"
    and "unat (of_nat raw :: 32 word) = raw" and "unat (of_nat wrap :: 32 word) = wrap"
proof -
  show r: "unat (of_nat raw :: 32 word) = raw"
    using assms by (intro unat_of_nat_u32) simp
  show w: "unat (of_nat wrap :: 32 word) = wrap"
    using assms by (intro unat_of_nat_u32) simp
  show "(of_nat raw, of_nat wrap) \<in> set search_space"
    using assms by (simp add: set_search_space r w)
qed

lemma cand_err_of_nat:
  assumes "16 \<le> raw" and "raw \<le> 4095" and "wrap \<le> 65535"
  shows "cand_err u f (of_nat raw) (of_nat wrap) = fabs (fsub u f (output_frequency u raw wrap))"
proof -
  have raw: "unat (of_nat raw :: 32 word) = raw" and wrap: "unat (of_nat wrap :: 32 word) = wrap"
    using assms by (rule in_search_space_nat)+
  have "unat (of_nat wrap :: 32 word) < 65536"
    using assms(3) by (simp only: wrap)
  from cand_out_freq_eq [OF this, of u "of_nat raw"] show ?thesis
    by (simp only: raw wrap cand_err_def)
qed

section \<open>The output blocks in closed form\<close>

lemma report_loop_map: "report_loop k ns = map (\<lambda>i. report_line i (ns ! i)) [k..<NOTE_CNT]"
proof (induction k ns rule: report_loop.induct)
  case (1 i ns)
  show ?case
  proof (cases "i < NOTE_CNT")
    case True
    then have "report_loop i ns = report_line i (ns ! i) # report_loop (i + 1) ns"
      by (subst report_loop.simps) simp
    with True "1.IH" show ?thesis
      by (simp add: upt_conv_Cons)
  next
    case False
    then show ?thesis
      by (subst report_loop.simps) simp
  qed
qed

lemma report_loop_nth:
  "i < NOTE_CNT \<Longrightarrow> report_loop 0 ns ! i = report_line i (ns ! i)"
  by (simp add: report_loop_map)

lemma length_report_loop: "length (report_loop 0 ns) = NOTE_CNT"
  by (simp add: report_loop_map)

lemma table_loop_concat:
  "table_loop k ns = concat (map (table_entry ns) [k..<NOTE_CNT])"
proof (induction k ns rule: table_loop.induct)
  case (1 i ns)
  show ?case
  proof (cases "i < NOTE_CNT")
    case True
    then have i: "i < 60"
      by (simp add: NOTE_CNT_60)
    have m: "i mod 7 = 6 \<longleftrightarrow> (i + 1) mod 7 = 0"
      by presburger
    have "table_loop i ns = table_entry ns i @ table_loop (i + 1) ns"
      using i by (subst table_loop.simps) (auto simp: table_entry_def NOTE_CNT_60 m)
    with True "1.IH" show ?thesis
      by (simp add: upt_conv_Cons)
  next
    case False
    then show ?thesis
      by (subst table_loop.simps) simp
  qed
qed

section \<open>The note of 440 Hz\<close>

text \<open>
  The target of the note of index 24 is 440 Hz, and the output frequency of a pair
  is \<open>4480000000 / (divider * (wrap + 1))\<close> up to rounding. The product 10181818 gives
  the closest frequency to 440 Hz; every other product is off by more than 0.00003 Hz,
  far more than the rounding errors. 10181818 is \<open>2 * 607 * 8387\<close>, and 8387 has no
  divisor but 1 and itself, so the only pairs of the search space with that product
  are (607, 16773) and (1214, 8386).
\<close>

lemma no_small_divisor_8387: "list_all (\<lambda>k. (8387 :: nat) mod k \<noteq> 0) [2..<92]"
  by (simp add: upt_rec_numeral)

lemma irreducible_8387:
  fixes k :: nat
  assumes "k dvd 8387"
  shows "k = 1 \<or> k = 8387"
proof -
  from assms obtain j where kj: "8387 = k * j"
    by (rule dvdE)
  have small: "a = 1" if "a dvd 8387" "a < 92" for a :: nat
  proof (rule ccontr)
    assume "a \<noteq> 1"
    moreover have "a \<noteq> 0"
    proof
      assume "a = 0"
      with that(1) show False
        by simp
    qed
    ultimately have "a \<in> set [2..<92]"
      using that(2) by (simp only: set_upt atLeastLessThan_iff) arith
    with no_small_divisor_8387 have "(8387 :: nat) mod a \<noteq> 0"
      unfolding list_all_iff by blast
    with that(1) show False
      by (simp add: mod_eq_0_iff_dvd)
  qed
  show ?thesis
  proof (cases "k < 92")
    case True
    with assms have "k = 1"
      by (rule small)
    then show ?thesis ..
  next
    case False
    have "j < 92"
    proof (rule ccontr)
      assume "\<not> j < 92"
      with False have "92 * 92 \<le> k * j"
        by (intro mult_le_mono) simp_all
      with kj show False
        by simp
    qed
    moreover have "j dvd 8387"
      by (simp add: kj)
    ultimately have "j = 1"
      by (intro small)
    with kj show ?thesis
      by simp
  qed
qed

lemma divisors_10181818:
  fixes d m :: nat
  assumes dm: "d * m = 10181818" and d: "d \<le> 4095" and m: "m \<le> 65536"
  shows "(d = 607 \<and> m = 16774) \<or> (d = 1214 \<and> m = 8387)"
proof -
  have d0: "0 < d"
    using dm by (cases d) simp_all
  have "\<not> 8387 dvd d"
    using d d0 by (auto dest: dvd_imp_le)
  have "gcd 8387 d dvd 8387"
    by simp
  then have "gcd 8387 d = 1 \<or> gcd 8387 d = 8387"
    by (rule irreducible_8387)
  moreover have "gcd 8387 d \<noteq> 8387"
    using \<open>\<not> 8387 dvd d\<close> by (metis gcd_dvd2)
  ultimately have "coprime 8387 d"
    by (simp add: coprime_iff_gcd_eq_1)
  moreover have "8387 dvd d * m"
    by (simp add: dm)
  ultimately have "8387 dvd m"
    by (simp add: coprime_dvd_mult_right_iff)
  then obtain k where k: "m = 8387 * k"
    by (rule dvdE)
  with dm have dk: "d * k = 1214"
    by simp
  from k m have "k \<le> 7"
    by simp
  moreover from dk have "k \<noteq> 0"
    by (cases k) simp_all
  ultimately have "k \<in> {1, 2, 3, 4, 5, 6, 7}"
    by auto
  moreover have "k dvd 1214"
    using dk by (metis dvd_triv_right)
  ultimately have "k = 1 \<or> k = 2"
    by auto
  with dk k show ?thesis
    by auto
qed

lemma cand_out_freq_near:
  assumes u: "ieee_double u"
    and dv: "16 \<le> unat dv" "unat dv \<le> 4095" and tp: "unat tp < 65536"
  defines "X \<equiv> 4480000000 / real (unat dv * (unat tp + 1))"
  shows "X * (1 - 1 / 2 ^ 51) \<le> cand_out_freq u dv tp"
    and "cand_out_freq u dv tp \<le> X * (1 + 1 / 2 ^ 51)"
    and "15 \<le> X" and "X \<le> 280000000"
proof -
  define d where "d = real (unat dv)"
  define m where "m = real (unat tp + 1)"
  have "real 16 \<le> d" "d \<le> real 4095"
    unfolding d_def using dv by (simp_all only: of_nat_le_iff)
  then have d: "16 \<le> d" "d \<le> 4095"
    by simp_all
  have "real 1 \<le> m" "m \<le> real 65536"
    unfolding m_def using tp by (simp_all only: of_nat_le_iff)
  then have m: "1 \<le> m" "m \<le> 65536"
    by simp_all
  have X: "X = 4480000000 / (d * m)"
    by (simp only: X_def d_def m_def of_nat_mult)
  define x1 where "x1 = 4480000000 / d"
  have x1: "1000000 \<le> x1" "x1 \<le> 280000000"
    using d by (simp_all add: x1_def field_simps)
  have Xx: "X = x1 / m"
    by (simp add: X x1_def)
  have "1000000 / 65536 \<le> x1 / m"
    using x1 m by (intro frac_le) simp_all
  moreover have "x1 / m \<le> 280000000 / 1"
    using x1 m by (intro frac_le) simp_all
  moreover have "(15 :: real) \<le> 1000000 / 65536"
    by simp
  ultimately show Xb: "15 \<le> X" "X \<le> 280000000"
    unfolding Xx by linarith+
  define fd where "fd = rnd u x1"
  have "\<bar>fd - x1\<bar> \<le> \<bar>x1\<bar> / 2 ^ 53"
    unfolding fd_def using u x1 by (intro rnd_close) simp_all
  then have fd: "\<bar>fd - x1\<bar> \<le> x1 * (1 / 2 ^ 53)"
    using x1 by simp
  have fdl: "x1 * (1 * (1 - 1 / 2 ^ 53)) \<le> fd"
    by (rule rel_lower [OF _ _ fd]) simp_all
  have fdu: "fd \<le> x1 * (1 * (1 + 1 / 2 ^ 53))"
    by (rule rel_upper [OF _ _ fd]) simp_all
  define x2 where "x2 = fd / m"
  have x2l: "X * (1 - 1 / 2 ^ 53) \<le> x2"
    using fdl m by (simp add: Xx x2_def field_simps)
  have x2u: "x2 \<le> X * (1 + 1 / 2 ^ 53)"
    using fdu m by (simp add: Xx x2_def field_simps)
  have "15 * (1 - 1 / 2 ^ 53) \<le> X * (1 - 1 / 2 ^ 53)"
    using Xb by (intro mult_right_mono) simp_all
  moreover have "X * (1 + 1 / 2 ^ 53) \<le> 280000000 * (1 + 1 / 2 ^ 53)"
    using Xb by (intro mult_right_mono) simp_all
  ultimately have x2: "14 \<le> x2" "x2 \<le> 300000000"
    using x2l x2u by simp_all
  have "\<bar>rnd u x2 - x2\<bar> \<le> \<bar>x2\<bar> / 2 ^ 53"
    using u x2 by (intro rnd_close) simp_all
  then have r: "\<bar>rnd u x2 - x2\<bar> \<le> x2 * (1 / 2 ^ 53)"
    using x2 by simp
  have "cand_out_freq u dv tp = rnd u (rnd u (280000000 / cand_divf u dv) / real (unat tp + 1))"
    by (simp only: cand_out_freq_def fdiv_def SYS_FREQ_HZ_def of_int_numeral unat_succ_wrap [OF tp])
  then have out: "cand_out_freq u dv tp = rnd u x2"
    by (simp add: cand_divf_exact [OF u] x2_def fd_def x1_def d_def m_def)
  have "X * ((1 - 1 / 2 ^ 53) * (1 - 1 / 2 ^ 53)) \<le> rnd u x2"
    by (rule rel_lower [OF _ x2l r]) simp
  moreover have "X * (1 - 1 / 2 ^ 51) \<le> X * ((1 - 1 / 2 ^ 53) * (1 - 1 / 2 ^ 53))"
    using Xb by (intro mult_left_mono) simp_all
  ultimately show "X * (1 - 1 / 2 ^ 51) \<le> cand_out_freq u dv tp"
    unfolding out by linarith
  have "rnd u x2 \<le> X * ((1 + 1 / 2 ^ 53) * (1 + 1 / 2 ^ 53))"
    by (rule rel_upper [OF _ x2u r]) simp
  moreover have "X * ((1 + 1 / 2 ^ 53) * (1 + 1 / 2 ^ 53)) \<le> X * (1 + 1 / 2 ^ 51)"
    using Xb by (intro mult_left_mono) simp_all
  ultimately show "cand_out_freq u dv tp \<le> X * (1 + 1 / 2 ^ 51)"
    unfolding out by linarith
qed

lemma gap_440:
  fixes P :: nat
  assumes "0 < P" and "P \<noteq> 10181818"
  shows "3 / 100000 \<le> \<bar>440 - 4480000000 / real P\<bar>"
proof -
  from assms(2) have "P < 10181818 \<or> 10181818 < P"
    by arith
  then show ?thesis
  proof
    assume "P < 10181818"
    then have "real P \<le> 10181817"
      by simp
    then have "(440 + 3 / 100000) * real P \<le> 4480000000"
      by simp
    then have "440 + 3 / 100000 \<le> 4480000000 / real P"
      using assms(1) by (simp add: pos_le_divide_eq)
    then show ?thesis
      by linarith
  next
    assume "10181818 < P"
    then have "10181819 \<le> real P"
      by simp
    then have "4480000000 \<le> (440 - 3 / 100000) * real P"
      by simp
    then have "4480000000 / real P \<le> 440 - 3 / 100000"
      using assms(1) by (simp add: pos_divide_le_eq)
    then show ?thesis
      by linarith
  qed
qed

lemma cand_err_440_far:
  assumes u: "ieee_double u"
    and dv: "16 \<le> unat dv" "unat dv \<le> 4095" and tp: "unat tp < 65536"
    and P: "unat dv * (unat tp + 1) \<noteq> 10181818"
  shows "2 / 100000 \<le> cand_err u 440 dv tp"
proof -
  define X where "X = 4480000000 / real (unat dv * (unat tp + 1))"
  define out where "out = cand_out_freq u dv tp"
  have near: "X * (1 - 1 / 2 ^ 51) \<le> out" "out \<le> X * (1 + 1 / 2 ^ 51)"
    and Xb: "15 \<le> X" "X \<le> 280000000"
    unfolding X_def out_def using u dv tp by (rule cand_out_freq_near)+
  have "0 < unat dv * (unat tp + 1)"
    using dv by simp
  then have gap: "3 / 100000 \<le> \<bar>440 - X\<bar>"
    unfolding X_def using P by (rule gap_440)
  define z where "z = 440 - out"
  have "X \<le> 440 - 3 / 100000 \<or> 440 + 3 / 100000 \<le> X"
    using gap by linarith
  then have zl: "29 / 1000000 \<le> \<bar>z\<bar>"
  proof
    assume "X \<le> 440 - 3 / 100000"
    then have "X * (1 + 1 / 2 ^ 51) \<le> (440 - 3 / 100000) * (1 + 1 / 2 ^ 51)"
      by (intro mult_right_mono) simp_all
    with near(2) have "out \<le> 440 - 29 / 1000000"
      by simp
    then show ?thesis
      unfolding z_def by linarith
  next
    assume "440 + 3 / 100000 \<le> X"
    then have "(440 + 3 / 100000) * (1 - 1 / 2 ^ 51) \<le> X * (1 - 1 / 2 ^ 51)"
      by (intro mult_right_mono) simp_all
    with near(1) have "440 + 29 / 1000000 \<le> out"
      by simp
    then show ?thesis
      unfolding z_def by linarith
  qed
  have "X * (1 + 1 / 2 ^ 51) \<le> 280000000 * (1 + 1 / 2 ^ 51)"
    using Xb by (intro mult_right_mono) simp_all
  with near(2) have "out \<le> 300000000"
    by simp
  moreover have "0 \<le> X * (1 - 1 / 2 ^ 51)"
    using Xb by (intro mult_nonneg_nonneg) simp_all
  with near(1) have "0 \<le> out"
    by simp
  ultimately have zu: "\<bar>z\<bar> \<le> 2 ^ 40"
    unfolding z_def by simp
  have "\<bar>rnd u z - z\<bar> \<le> \<bar>z\<bar> / 2 ^ 53"
    using u zl zu by (intro rnd_close) simp_all
  then have "\<bar>z\<bar> - \<bar>z\<bar> / 2 ^ 53 \<le> \<bar>rnd u z\<bar>"
    by linarith
  with zl have "2 / 100000 \<le> \<bar>rnd u z\<bar>"
    by simp
  then show ?thesis
    by (simp only: cand_err_def fabs_def fsub_def z_def out_def)
qed

lemma cand_err_440_near:
  assumes u: "ieee_double u"
    and dv: "16 \<le> unat dv" "unat dv \<le> 4095" and tp: "unat tp < 65536"
    and P: "unat dv * (unat tp + 1) = 10181818"
  shows "cand_err u 440 dv tp \<le> 1 / 100000"
proof -
  define X :: real where "X = 4480000000 / real (unat dv * (unat tp + 1))"
  define out where "out = cand_out_freq u dv tp"
  have near: "X * (1 - 1 / 2 ^ 51) \<le> out" "out \<le> X * (1 + 1 / 2 ^ 51)"
    unfolding X_def out_def using u dv tp by (rule cand_out_freq_near)+
  have "real (unat dv * (unat tp + 1)) = real 10181818"
    by (simp only: P)
  then have X: "X = 4480000000 / 10181818"
    by (simp only: X_def of_nat_numeral)
  define z where "z = 440 - out"
  from near have "4480000000 / 10181818 * (1 - 1 / 2 ^ 51) \<le> out"
    and "out \<le> 4480000000 / 10181818 * (1 + 1 / 2 ^ 51)"
    by (simp_all only: X)
  then have "440 + 7 / 1000000 \<le> out" and "out \<le> 440 + 8 / 1000000"
    by simp_all
  then have zb: "7 / 1000000 \<le> \<bar>z\<bar>" "\<bar>z\<bar> \<le> 8 / 1000000"
    unfolding z_def by linarith+
  have "\<bar>rnd u z - z\<bar> \<le> \<bar>z\<bar> / 2 ^ 53"
    using u zb by (intro rnd_close) simp_all
  then have "\<bar>rnd u z\<bar> \<le> \<bar>z\<bar> + \<bar>z\<bar> / 2 ^ 53"
    by linarith
  with zb have "\<bar>rnd u z\<bar> \<le> 1 / 100000"
    by simp
  then show ?thesis
    by (simp only: cand_err_def fabs_def fsub_def z_def out_def)
qed

lemma cand_24_in_space:
  "(607, 16773) \<in> set search_space" "(1214, 8386) \<in> set search_space"
  by (simp_all add: set_search_space)

lemma best_cands_24:
  assumes u: "ieee_double u" and c: "c \<in> set search_space"
    and least: "\<forall>c'\<in>set search_space.
      cand_err u 440 (fst c) (snd c) \<le> cand_err u 440 (fst c') (snd c')"
  shows "c = (607, 16773) \<or> c = (1214, 8386)"
proof -
  define d where "d = unat (fst c)"
  define m where "m = unat (snd c) + 1"
  from c have range: "16 \<le> d" "d \<le> 4095" "unat (snd c) < 65536" "m \<le> 65536"
    by (simp_all add: set_search_space d_def m_def)
  have "cand_err u 440 607 16773 \<le> 1 / 100000"
    using u by (intro cand_err_440_near) simp_all
  moreover from least cand_24_in_space(1)
  have "cand_err u 440 (fst c) (snd c) \<le> cand_err u 440 607 16773"
    by fastforce
  ultimately have small: "cand_err u 440 (fst c) (snd c) \<le> 1 / 100000"
    by (rule order_trans [rotated])
  have "d * m = 10181818"
  proof (rule ccontr)
    assume "d * m \<noteq> 10181818"
    with u range have "2 / 100000 \<le> cand_err u 440 (fst c) (snd c)"
      unfolding d_def m_def by (intro cand_err_440_far)
    with small show False
      by simp
  qed
  with range have "(d = 607 \<and> m = 16774) \<or> (d = 1214 \<and> m = 8387)"
    by (intro divisors_10181818)
  then have "(unat (fst c) = unat (607 :: 32 word) \<and> unat (snd c) = unat (16773 :: 32 word)) \<or>
    (unat (fst c) = unat (1214 :: 32 word) \<and> unat (snd c) = unat (8386 :: 32 word))"
    by (auto simp: d_def m_def)
  then have "(fst c = 607 \<and> snd c = 16773) \<or> (fst c = 1214 \<and> snd c = 8386)"
    by (simp only: word_unat_eq_iff)
  then show ?thesis
    by (cases c) auto
qed

text \<open>
  The note of index 24 when the two closest pairs tie: the loops of the source retain
  the first of them, the same loops run downwards retain the second.
\<close>

lemma search_24:
  assumes u: "ieee_double u"
    and tie: "cand_err u 440 607 16773 = cand_err u 440 1214 8386"
  shows "search u ! 24 = take_cand u (607, 16773) (init_loop u 0 notes0 ! 24)"
proof -
  have i: "24 < NOTE_CNT"
    by (simp add: NOTE_CNT_60)
  have f: "note_freq u 24 = 440"
    using u by (rule note_freq_24)
  from search_best [OF u i] obtain c
    where c: "c \<in> set search_space"
      and r: "search u ! 24 = take_cand u c (init_loop u 0 notes0 ! 24)"
      and least: "\<forall>c'\<in>set search_space. cand_err u (note_freq u 24) (fst c) (snd c)
           \<le> cand_err u (note_freq u 24) (fst c') (snd c')"
      and first: "\<forall>c'\<in>set search_space. earlier c' c \<longrightarrow>
           cand_err u (note_freq u 24) (fst c) (snd c)
             < cand_err u (note_freq u 24) (fst c') (snd c')"
    by blast
  from u c least have "c = (607, 16773) \<or> c = (1214, 8386)"
    unfolding f by (rule best_cands_24)
  moreover have "c \<noteq> (1214, 8386)"
  proof
    assume "c = (1214, 8386)"
    moreover have "earlier (607, 16773) (1214, 8386)"
      by (simp add: earlier_def)
    ultimately have "cand_err u 440 1214 8386 < cand_err u 440 607 16773"
      using first cand_24_in_space(1) unfolding f by fastforce
    then show False
      by (simp only: tie less_irrefl)
  qed
  ultimately show ?thesis
    using r by simp
qed


lemma round_to_nearest_half:
  assumes "2 powr - 1021 \<le> \<bar>x\<bar>"
  shows "round_to_nearest (x / 2) = round_to_nearest x / 2"
proof -
  have "(2 :: real) powr - 1022 \<le> 2 powr - 1021"
    by (intro powr_mono) simp_all
  with assms have n: "2 powr - 1022 \<le> \<bar>x\<bar>"
    by (rule order_trans [rotated])
  have "(2 :: real) powr - 1022 = 2 powr (- 1021 - 1)"
    by simp
  also have "\<dots> = 2 powr - 1021 / 2"
    by (simp only: powr_diff powr_one)
  finally have h: "2 powr - 1022 \<le> \<bar>x / 2\<bar>"
    using assms by simp
  have x: "x \<noteq> 0"
    using n by auto
  define q where "q = ulp_exp x"
  have "log 2 \<bar>x / 2\<bar> = log 2 \<bar>x\<bar> - 1"
    using x by (simp add: log_divide)
  then have "\<lfloor>log 2 \<bar>x / 2\<bar>\<rfloor> = \<lfloor>log 2 \<bar>x\<bar>\<rfloor> - 1"
    by simp
  then have q2: "ulp_exp (x / 2) = q - 1"
    by (simp only: ulp_exp_normal [OF n] ulp_exp_normal [OF h] q_def)
  have s: "2 powr real_of_int (q - 1) = 2 powr real_of_int q / 2"
    by (simp add: powr_diff)
  have "round_to_nearest (x / 2) =
      real_of_int (rint (x / 2 / (2 powr real_of_int q / 2))) * (2 powr real_of_int q / 2)"
    using x by (simp only: round_to_nearest_def q2 s) simp
  also have "x / 2 / (2 powr real_of_int q / 2) = x / 2 powr real_of_int q"
    by simp
  finally show ?thesis
    using x by (simp add: round_to_nearest_def q_def)
qed

lemma rnd_binary64: "rnd binary64 = round_to_nearest"
  by (simp add: binary64_def)

lemma cand_out_freq_numeral:
  assumes "ieee_double u" and "unat tp < 65536"
  shows "cand_out_freq u dv tp =
    rnd u (rnd u (280000000 / (real (unat dv) / 16)) / real (unat tp + 1))"
  by (simp only: cand_out_freq_def fdiv_def SYS_FREQ_HZ_def of_int_numeral
      unat_succ_wrap [OF assms(2)] cand_divf_exact [OF assms(1)])

lemma tie_binary64: "cand_err binary64 440 607 16773 = cand_err binary64 440 1214 8386"
proof -
  define y :: real where "y = 280000000 / (607 / 16)"
  have "(2 :: real) powr - 1021 \<le> 2 powr 0"
    by (intro powr_mono) simp_all
  also have "\<dots> \<le> \<bar>y\<bar>"
    by (simp add: y_def)
  finally have half: "round_to_nearest (y / 2) = round_to_nearest y / 2"
    by (rule round_to_nearest_half)
  have "cand_out_freq binary64 607 16773 = round_to_nearest (round_to_nearest y / 16774)"
    by (simp add: cand_out_freq_numeral [OF ieee_double_binary64] rnd_binary64 y_def)
  moreover have "cand_out_freq binary64 1214 8386 =
      round_to_nearest (round_to_nearest (y / 2) / 8387)"
    by (simp add: cand_out_freq_numeral [OF ieee_double_binary64] rnd_binary64 y_def)
  moreover have "round_to_nearest y / 2 / 8387 = round_to_nearest y / 16774"
    by simp
  ultimately have "cand_out_freq binary64 607 16773 = cand_out_freq binary64 1214 8386"
    by (simp only: half)
  then show ?thesis
    by (simp only: cand_err_def)
qed

lemma search_binary64_24:
  "search binary64 ! 24 = take_cand binary64 (607, 16773) (init_loop binary64 0 notes0 ! 24)"
  using ieee_double_binary64 tie_binary64 by (rule search_24)


lemma rnd_binary64_int:
  assumes "\<bar>k\<bar> < 2 ^ 53"
  shows "rnd binary64 (real_of_int k) = real_of_int k"
  using ieee_double_binary64 representable_int [OF assms] by (rule rnd_representable)

lemma note_freq_binary64_24: "note_freq binary64 24 = 440"
  using ieee_double_binary64 by (rule note_freq_24)

section \<open>The claims\<close>

text \<open>
  C1. After the search, for every note of index 0 to 59, the retained error is the
  absolute difference of the target frequency and the retained output frequency, as
  line 66 computes it; that output frequency is the one of the retained pair, which
  lies in the search space; and no pair of a divider raw value in 16 to 4095 and a wrap
  value in 0 to 65535 has a strictly smaller error: the retained result is a minimum
  over the whole search space.
\<close>

theorem search_finds_minimum:
  assumes "ieee_double u" and "i < NOTE_CNT"
    and "16 \<le> raw" and "raw \<le> 4095" and "wrap \<le> 65535"
  shows "err (search u ! i) = fabs (fsub u (freq (search u ! i)) (out_freq (search u ! i))) \<and>
    out_freq (search u ! i) =
      output_frequency u (unat (div_reg (search u ! i))) (unat (top_reg (search u ! i))) \<and>
    (div_reg (search u ! i), top_reg (search u ! i)) \<in> set search_space \<and>
    err (search u ! i) \<le> fabs (fsub u (freq (search u ! i)) (output_frequency u raw wrap))"
proof -
  let ?n = "init_loop u 0 notes0 ! i"
  from search_best [OF assms(1,2)] obtain c
    where c: "c \<in> set search_space"
      and r: "search u ! i = take_cand u c (init_loop u 0 notes0 ! i)"
      and least: "\<forall>c'\<in>set search_space. cand_err u (note_freq u i) (fst c) (snd c)
           \<le> cand_err u (note_freq u i) (fst c') (snd c')"
      and first: "\<forall>c'\<in>set search_space. earlier c' c \<longrightarrow>
           cand_err u (note_freq u i) (fst c) (snd c) < cand_err u (note_freq u i) (fst c') (snd c')"
    by blast
  have n: "freq ?n = note_freq u i"
    using assms(2) by (simp add: init_loop_nth)
  from c have tp: "unat (snd c) < 65536"
    by (simp add: set_search_space)
  have A: "err (search u ! i) = fabs (fsub u (freq (search u ! i)) (out_freq (search u ! i)))"
    by (simp add: r take_cand_fields cand_err_def)
  have B: "out_freq (search u ! i) =
      output_frequency u (unat (div_reg (search u ! i))) (unat (top_reg (search u ! i)))"
    using tp by (simp add: r take_cand_fields cand_out_freq_eq)
  have C: "(div_reg (search u ! i), top_reg (search u ! i)) \<in> set search_space"
    using c by (simp add: r take_cand_fields)
  have D: "err (search u ! i) \<le>
      fabs (fsub u (freq (search u ! i)) (output_frequency u raw wrap))"
  proof -
    let ?c = "(of_nat raw, of_nat wrap) :: 32 word \<times> 32 word"
    have "?c \<in> set search_space"
      using assms(3-5) by (rule in_search_space_nat)
    with least have "cand_err u (note_freq u i) (fst c) (snd c)
        \<le> cand_err u (note_freq u i) (fst ?c) (snd ?c)"
      by (rule bspec)
    then have "cand_err u (note_freq u i) (fst c) (snd c)
        \<le> fabs (fsub u (note_freq u i) (output_frequency u raw wrap))"
      by (simp only: fst_conv snd_conv cand_err_of_nat [OF assms(3-5)])
    then show ?thesis
      by (simp only: r take_cand_fields n)
  qed
  from A B C D show ?thesis
    by (intro conjI)
qed

theorem search_finds_minimum_witness:
  "ieee_double binary64 \<and> (24 :: nat) < NOTE_CNT \<and> (16 :: nat) \<le> 607 \<and> (607 :: nat) \<le> 4095 \<and>
   (16773 :: nat) \<le> 65535 \<and>
   err (search binary64 ! 24) = fabs (fsub binary64 (freq (search binary64 ! 24)) (out_freq (search binary64 ! 24))) \<and>
   out_freq (search binary64 ! 24) =
      output_frequency binary64 (unat (div_reg (search binary64 ! 24))) (unat (top_reg (search binary64 ! 24))) \<and>
   (div_reg (search binary64 ! 24), top_reg (search binary64 ! 24)) \<in> set search_space \<and>
   err (search binary64 ! 24) \<le> fabs (fsub binary64 (freq (search binary64 ! 24)) (output_frequency binary64 607 16773))"
proof -
  have u: "ieee_double binary64"
    by (rule ieee_double_binary64)
  have i: "(24 :: nat) < NOTE_CNT"
    by (simp add: NOTE_CNT_60)
  have c: "(16 :: nat) \<le> 607" "(607 :: nat) \<le> 4095" "(16773 :: nat) \<le> 65535"
    by simp_all
  from search_finds_minimum [OF u i c] u i c show ?thesis
    by (intro conjI) blast+
qed








text \<open>
  C5. For every note index \<open>i\<close> from 0 to 59 the target frequency of the note is the
  double that \<^verbatim>\<open>440. * pow(2, (i + 45 - 69)/12.)\<close> computes; it differs from the real
  number \<open>440 * 2 ^ ((i + 45 - 69) / 12)\<close> by a relative error of at most \<open>2 ^ - 48\<close>; and
  the target frequency of the note of index 24 is exactly 440.
\<close>

theorem target_frequency_formula:
  assumes "ieee_double u" and "i < NOTE_CNT"
  shows "freq (search u ! i) = fmul u 440 (pow u 2 (fdiv u (real_of_int (int i + 45 - 69)) 12)) \<and>
    \<bar>freq (search u ! i) - target_frequency i\<bar> \<le> target_frequency i / 2 ^ 48 \<and>
    freq (search u ! 24) = 440"
proof -
  have i: "i < 60"
    using assms(2) by (simp add: NOTE_CNT_60)
  have f: "freq (search u ! k) = note_freq u k" if "k < NOTE_CNT" for k
    using that by (simp only: search_eq_in_order freq_search_in_order)
  have "freq (search u ! i) = fmul u 440 (pow u 2 (fdiv u (real_of_int (int i + 45 - 69)) 12))"
    using assms(2) by (simp add: f note_freq_def BASE_NOTE_def)
  moreover have "\<bar>freq (search u ! i) - target_frequency i\<bar> \<le> target_frequency i / 2 ^ 48"
    using note_freq_error [OF assms(1) i] assms(2) by (simp only: f)
  moreover have "freq (search u ! 24) = 440"
    using note_freq_24 [OF assms(1)] by (simp add: f NOTE_CNT_60)
  ultimately show ?thesis
    by (intro conjI)
qed

theorem target_frequency_formula_witness:
  "ieee_double binary64 \<and> (36 :: nat) < NOTE_CNT \<and>
   freq (search binary64 ! 36) = fmul binary64 440 (pow binary64 2 (fdiv binary64 (real_of_int (int 36 + 45 - 69)) 12)) \<and>
   \<bar>freq (search binary64 ! 36) - target_frequency 36\<bar> \<le> target_frequency 36 / 2 ^ 48 \<and>
   freq (search binary64 ! 24) = 440 \<and>
   fmul binary64 440 (pow binary64 2 (fdiv binary64 (real_of_int (int 36 + 45 - 69)) 12)) = 880"
proof -
  have u: "ieee_double binary64"
    by (rule ieee_double_binary64)
  have i: "(36 :: nat) < NOTE_CNT"
    by (simp add: NOTE_CNT_60)
  have "rnd binary64 1 = 1" "round_to_nearest 2 = 2" "rnd binary64 880 = 880"
    using rnd_binary64_int [of 1] rnd_binary64_int [of 2] rnd_binary64_int [of 880]
    by (simp_all add: rnd_binary64)
  then have "fmul binary64 440 (pow binary64 2 (fdiv binary64 (real_of_int (int 36 + 45 - 69)) 12)) = 880"
    by (simp add: fmul_def fdiv_def binary64_def)
  with target_frequency_formula [OF u i] u i show ?thesis
    by (intro conjI) blast+
qed

text \<open>
  C6. The pair of a divider raw value and a wrap value retained for a note lies within
  the bounds of the search: the divider from 16 to 4095 and the wrap from 0 to 65535.
\<close>

theorem result_within_bounds:
  assumes "ieee_double u" and "i < NOTE_CNT"
  shows "16 \<le> div_reg (search u ! i) \<and> div_reg (search u ! i) \<le> 4095 \<and>
    0 \<le> top_reg (search u ! i) \<and> top_reg (search u ! i) \<le> 65535"
proof -
  from search_best [OF assms] obtain c
    where c: "c \<in> set search_space"
      and r: "search u ! i = take_cand u c (init_loop u 0 notes0 ! i)"
      and least: "\<forall>c'\<in>set search_space. cand_err u (note_freq u i) (fst c) (snd c)
           \<le> cand_err u (note_freq u i) (fst c') (snd c')"
      and first: "\<forall>c'\<in>set search_space. earlier c' c \<longrightarrow>
           cand_err u (note_freq u i) (fst c) (snd c) < cand_err u (note_freq u i) (fst c') (snd c')"
    by blast
  from c have "16 \<le> unat (fst c)" "unat (fst c) \<le> 4095" "unat (snd c) \<le> 65535"
    by (simp_all add: set_search_space)
  then have "16 \<le> fst c" "fst c \<le> 4095" "snd c \<le> 65535"
    by (simp_all add: word_le_nat_alt)
  then show ?thesis
    by (simp add: r take_cand_fields)
qed

theorem result_within_bounds_witness:
  "ieee_double binary64 \<and> (24 :: nat) < NOTE_CNT \<and>
   16 \<le> div_reg (search binary64 ! 24) \<and> div_reg (search binary64 ! 24) \<le> 4095 \<and>
   0 \<le> top_reg (search binary64 ! 24) \<and> top_reg (search binary64 ! 24) \<le> 65535"
proof -
  have u: "ieee_double binary64"
    by (rule ieee_double_binary64)
  have i: "(24 :: nat) < NOTE_CNT"
    by (simp add: NOTE_CNT_60)
  from result_within_bounds [OF u i] u i show ?thesis
    by (intro conjI) blast+
qed

text \<open>
  C7. For any table of 60 notes handed to the reporting: in the first block, a note
  whose output frequency is still the sentinel -1 gets
  the line \<^verbatim>\<open>"%u: no config\n"\<close> with its index, and the run goes on: the block has
  one line for each of the 60 notes, every other note \<open>j\<close> has its own line, the table
  is printed after the block and the exit status is 0.
\<close>

theorem report_no_config:
  assumes "length ns = NOTE_CNT" and "i < NOTE_CNT" and "out_freq (ns ! i) = - 1"
    and "j < NOTE_CNT"
  shows "fst (output_blocks ns) ! i = Text (show_dec i @ '': no config'' @ [CHR 0x0A]) \<and>
    length (fst (output_blocks ns)) = NOTE_CNT \<and>
    fst (output_blocks ns) ! j = report_line j (ns ! j) \<and>
    fst (snd (output_blocks ns)) = table ns \<and>
    snd (snd (output_blocks ns)) = 0"
  using assms by (simp add: output_blocks_def report_loop_nth length_report_loop report_line_def)

theorem report_no_config_witness:
  "length ((search binary64)[3 := (search binary64 ! 3)\<lparr>out_freq := - 1\<rparr>]) = NOTE_CNT \<and>
   (3 :: nat) < NOTE_CNT \<and>
   out_freq ((search binary64)[3 := (search binary64 ! 3)\<lparr>out_freq := - 1\<rparr>] ! 3) = - 1 \<and>
   (24 :: nat) < NOTE_CNT \<and>
   fst (output_blocks ((search binary64)[3 := (search binary64 ! 3)\<lparr>out_freq := - 1\<rparr>])) ! 3 =
     Text (''3: no config'' @ [CHR 0x0A]) \<and>
   length (fst (output_blocks ((search binary64)[3 := (search binary64 ! 3)\<lparr>out_freq := - 1\<rparr>]))) = 60 \<and>
   fst (output_blocks ((search binary64)[3 := (search binary64 ! 3)\<lparr>out_freq := - 1\<rparr>])) ! 24 =
     Config 24 440 (out_freq (search binary64 ! 24)) (err (search binary64 ! 24)) 607 37.9375 16773 \<and>
   fst (snd (output_blocks ((search binary64)[3 := (search binary64 ! 3)\<lparr>out_freq := - 1\<rparr>]))) =
     table ((search binary64)[3 := (search binary64 ! 3)\<lparr>out_freq := - 1\<rparr>]) \<and>
   snd (snd (output_blocks ((search binary64)[3 := (search binary64 ! 3)\<lparr>out_freq := - 1\<rparr>]))) = 0"
proof -
  let ?ns = "(search binary64)[3 := (search binary64 ! 3)\<lparr>out_freq := - 1\<rparr>]"
  have l: "length ?ns = NOTE_CNT"
    by (simp add: length_search)
  have i: "(3 :: nat) < NOTE_CNT" and j: "(24 :: nat) < NOTE_CNT"
    by (simp_all add: NOTE_CNT_60)
  have s: "out_freq (?ns ! 3) = - 1"
    using i by (simp add: length_search)
  have d: "show_dec 3 = ''3''"
    by (simp add: show_dec.simps digit_char_def)
  have n: "?ns ! 24 = search binary64 ! 24"
    by simp
  have "14 \<le> cand_out_freq binary64 607 16773"
    using ieee_double_binary64 by (intro cand_out_freq_bounds) simp_all
  then have r: "report_line 24 (search binary64 ! 24) =
      Config 24 440 (out_freq (search binary64 ! 24)) (err (search binary64 ! 24)) 607 37.9375 16773"
    using j
    by (simp add: report_line_def search_binary64_24 take_cand_fields init_loop_nth
        note_freq_binary64_24 cand_divf_exact [OF ieee_double_binary64])
  from report_no_config [OF l i s j]
  have "fst (output_blocks ?ns) ! 3 = Text (''3: no config'' @ [CHR 0x0A])"
    and "length (fst (output_blocks ?ns)) = 60"
    and "fst (output_blocks ?ns) ! 24 =
      Config 24 440 (out_freq (search binary64 ! 24)) (err (search binary64 ! 24)) 607 37.9375 16773"
    and "fst (snd (output_blocks ?ns)) = table ?ns"
    and "snd (snd (output_blocks ?ns)) = 0"
    by (simp_all add: d n r NOTE_CNT_60)
  with l i s j show ?thesis
    by (intro conjI)
qed

text \<open>
  C8. The case of a note without a candidate cannot occur: for every note the first
  candidate of the search, divider 16 and wrap 0, has an error below the initial
  error 9999999999, so after the search the output frequency of the note is not the
  sentinel -1 and the first block prints the line of line 85 for it, never the
  ``no config'' line.
\<close>

theorem no_config_unreachable:
  assumes "ieee_double u" and "i < NOTE_CNT"
  shows "err (init_loop u 0 notes0 ! i) = 9999999999 \<and>
    cand_err u (freq (init_loop u 0 notes0 ! i)) 16 0 < err (init_loop u 0 notes0 ! i) \<and>
    out_freq (search u ! i) \<noteq> - 1 \<and>
    fst (main u) ! i =
      Config i (freq (search u ! i)) (out_freq (search u ! i)) (err (search u ! i))
        (div_reg (search u ! i)) (divf (search u ! i)) (top_reg (search u ! i))"
proof -
  let ?n = "init_loop u 0 notes0 ! i"
  have n: "freq ?n = note_freq u i" "err ?n = 9999999999"
    using assms(2) by (simp_all add: init_loop_nth)
  have beats: "cand_err u (note_freq u i) 16 0 < 9999999999"
    using assms(1) note_freq_range [OF assms] by (intro cand_err_first) simp_all
  from search_best [OF assms] obtain c
    where c: "c \<in> set search_space"
      and r: "search u ! i = take_cand u c (init_loop u 0 notes0 ! i)"
      and least: "\<forall>c'\<in>set search_space. cand_err u (note_freq u i) (fst c) (snd c)
           \<le> cand_err u (note_freq u i) (fst c') (snd c')"
      and first: "\<forall>c'\<in>set search_space. earlier c' c \<longrightarrow>
           cand_err u (note_freq u i) (fst c) (snd c) < cand_err u (note_freq u i) (fst c') (snd c')"
    by blast
  from c have "14 \<le> cand_out_freq u (fst c) (snd c)"
    using assms(1) by (intro cand_out_freq_bounds) (simp_all add: set_search_space)
  then have out: "out_freq (search u ! i) \<noteq> - 1"
    by (simp add: r take_cand_fields)
  then have "fst (main u) ! i =
      Config i (freq (search u ! i)) (out_freq (search u ! i)) (err (search u ! i))
        (div_reg (search u ! i)) (divf (search u ! i)) (top_reg (search u ! i))"
    using assms(2) by (simp add: main_def output_blocks_def report_loop_nth report_line_def)
  with n beats out show ?thesis
    by simp
qed

theorem no_config_unreachable_witness:
  "ieee_double binary64 \<and> (24 :: nat) < NOTE_CNT \<and>
   err (init_loop binary64 0 notes0 ! 24) = 9999999999 \<and>
   cand_err binary64 (freq (init_loop binary64 0 notes0 ! 24)) 16 0 < err (init_loop binary64 0 notes0 ! 24) \<and>
   out_freq (search binary64 ! 24) \<noteq> - 1 \<and>
   fst (main binary64) ! 24 =
      Config 24 (freq (search binary64 ! 24)) (out_freq (search binary64 ! 24)) (err (search binary64 ! 24))
        (div_reg (search binary64 ! 24)) (divf (search binary64 ! 24)) (top_reg (search binary64 ! 24))"
proof -
  have u: "ieee_double binary64"
    by (rule ieee_double_binary64)
  have i: "(24 :: nat) < NOTE_CNT"
    by (simp add: NOTE_CNT_60)
  from no_config_unreachable [OF u i] u i show ?thesis
    by (intro conjI) blast+
qed

text \<open>
  C9. The second block that \<^verbatim>\<open>main\<close> prints is the one-line comment, the opening \<^verbatim>\<open>pwm_cfgs = [\<close>, then
  one entry for each of the 60 notes in the order of their indices, and the closing
  bracket. An entry is the hexadecimal pair of the divider and the wrap of the note,
  followed by a comma unless it is the last one, and by a line break after every
  seventh entry (after the entries 6, 13, ..., 55), never after the last. Every pair
  is a valid one: its divider lies in 16 to 4095 and its wrap in 0 to 65535.
\<close>

theorem table_emission:
  assumes "ieee_double u"
  shows "fst (snd (main u)) =
      ''# This table is generated using genfreqs.c'' @ [CHR 0x0A] @
      [CHR 0x0A] @ ''pwm_cfgs = ['' @
      concat (map (table_entry (search u)) [0..<60]) @
      '']'' @ [CHR 0x0A] \<and>
    length (search u) = 60 \<and>
    filter (\<lambda>i. (i + 1) mod 7 = 0 \<and> i \<noteq> 59) [0..<60] = [6, 13, 20, 27, 34, 41, 48, 55] \<and>
    (\<forall>i<60. 16 \<le> div_reg (search u ! i) \<and> div_reg (search u ! i) \<le> 4095 \<and>
       top_reg (search u ! i) \<le> 65535)"
proof -
  have "table (search u) =
      ''# This table is generated using genfreqs.c'' @ [CHR 0x0A] @
      [CHR 0x0A] @ ''pwm_cfgs = ['' @
      concat (map (table_entry (search u)) [0..<NOTE_CNT]) @
      '']'' @ [CHR 0x0A]"
    by (simp add: table_def table_loop_concat)
  then have A: "fst (snd (main u)) =
      ''# This table is generated using genfreqs.c'' @ [CHR 0x0A] @
      [CHR 0x0A] @ ''pwm_cfgs = ['' @
      concat (map (table_entry (search u)) [0..<60]) @
      '']'' @ [CHR 0x0A]"
    by (simp only: NOTE_CNT_60 main_def output_blocks_def fst_conv snd_conv)
  have B: "length (search u) = 60"
    by (simp only: length_search NOTE_CNT_60)
  have "[0..<60] = 0 # 1 # [2..<60]"
    by (simp add: upt_rec)
  then have C: "filter (\<lambda>i. (i + 1) mod 7 = 0 \<and> i \<noteq> 59) [0..<60] = [6, 13, 20, 27, 34, 41, 48, 55]"
    by (simp add: upt_rec_numeral)
  have D: "\<forall>i<60. 16 \<le> div_reg (search u ! i) \<and> div_reg (search u ! i) \<le> 4095 \<and>
       top_reg (search u ! i) \<le> 65535"
  proof (intro allI impI)
    fix i :: nat
    assume "i < 60"
    then have i: "i < NOTE_CNT"
      by (simp add: NOTE_CNT_60)
    from search_best [OF assms i] obtain c
      where c: "c \<in> set search_space"
        and r: "search u ! i = take_cand u c (init_loop u 0 notes0 ! i)"
        and least: "\<forall>c'\<in>set search_space. cand_err u (note_freq u i) (fst c) (snd c)
           \<le> cand_err u (note_freq u i) (fst c') (snd c')"
        and first: "\<forall>c'\<in>set search_space. earlier c' c \<longrightarrow>
           cand_err u (note_freq u i) (fst c) (snd c) < cand_err u (note_freq u i) (fst c') (snd c')"
      by blast
    from c have "16 \<le> unat (fst c)" "unat (fst c) \<le> 4095" "unat (snd c) \<le> 65535"
      by (simp_all add: set_search_space)
    then have "16 \<le> fst c" "fst c \<le> 4095" "snd c \<le> 65535"
      by (simp_all add: word_le_nat_alt)
    then show "16 \<le> div_reg (search u ! i) \<and> div_reg (search u ! i) \<le> 4095 \<and>
       top_reg (search u ! i) \<le> 65535"
      by (simp add: r take_cand_fields)
  qed
  from A B C D show ?thesis
    by (intro conjI)
qed

theorem table_emission_witness:
  "ieee_double binary64 \<and>
   fst (snd (main binary64)) =
      ''# This table is generated using genfreqs.c'' @ [CHR 0x0A] @
      [CHR 0x0A] @ ''pwm_cfgs = ['' @
      concat (map (table_entry (search binary64)) [0..<60]) @
      '']'' @ [CHR 0x0A] \<and>
   length (search binary64) = 60 \<and>
   table_entry (search binary64) 24 = ''(0x25f,0x4185),'' \<and>
   16 \<le> div_reg (search binary64 ! 24) \<and> div_reg (search binary64 ! 24) \<le> 4095 \<and>
   top_reg (search binary64 ! 24) \<le> 65535"
proof -
  have u: "ieee_double binary64"
    by (rule ieee_double_binary64)
  note w = table_emission [OF u]
  have h: "show_hex 607 = ''25f''" "show_hex 16773 = ''4185''"
    by (simp_all add: show_hex.simps digit_char_def)
  have e: "table_entry (search binary64) 24 = ''(0x25f,0x4185),''"
    by (simp add: table_entry_def search_binary64_24 take_cand_fields h)
  from w have "16 \<le> div_reg (search binary64 ! 24) \<and> div_reg (search binary64 ! 24) \<le> 4095 \<and>
     top_reg (search binary64 ! 24) \<le> 65535"
    by simp
  with w u e show ?thesis
    by (intro conjI) blast+
qed

text \<open>
  C10. The target frequencies increase strictly with the note index: for indices
  \<open>i < j\<close> from 0 to 59 the target frequency of the note \<open>i\<close> is below that of the
  note \<open>j\<close>, for the doubles the program computes as for the real numbers of the
  specification.
\<close>

theorem target_frequencies_increasing:
  assumes "ieee_double u" and "i < j" and "j < NOTE_CNT"
  shows "freq (search u ! i) < freq (search u ! j) \<and> target_frequency i < target_frequency j"
proof -
  have j: "j < 60"
    using assms(3) by (simp add: NOTE_CNT_60)
  have f: "freq (search u ! k) = note_freq u k" if "k < NOTE_CNT" for k
    using that by (simp only: search_eq_in_order freq_search_in_order)
  have "note_freq u i < note_freq u j"
    using assms(1,2) j by (rule note_freq_strict_mono)
  then have "freq (search u ! i) < freq (search u ! j)"
    using assms(2,3) by (simp add: f)
  moreover have "target_frequency i < target_frequency j"
    using assms(2) by (simp add: target_frequency_def)
  ultimately show ?thesis ..
qed

theorem target_frequencies_increasing_witness:
  "ieee_double binary64 \<and> (0 :: nat) < 59 \<and> (59 :: nat) < NOTE_CNT \<and>
   freq (search binary64 ! 0) < freq (search binary64 ! 59) \<and>
   target_frequency 0 < target_frequency 59"
proof -
  have u: "ieee_double binary64"
    by (rule ieee_double_binary64)
  have i: "(0 :: nat) < 59"
    by simp
  have j: "(59 :: nat) < NOTE_CNT"
    by (simp add: NOTE_CNT_60)
  from target_frequencies_increasing [OF u i j] u i j show ?thesis
    by (intro conjI) blast+
qed

end
